theory Spec2Isabelle
  imports Complex_Main
begin

section \<open>N-dimensional arrays\<close>

text \<open>
  A dense array as NumPy keeps it: a shape and the elements in C (row-major) order, the
  order of \<^verbatim>\<open>ravel()\<close> and \<^verbatim>\<open>.flat\<close>.  An array is well formed when it holds
  as many elements as its shape announces.
\<close>

record 'a ndarray =
  shape :: "nat list"
  flat :: "'a list"

definition wf_ndarray :: "'a ndarray \<Rightarrow> bool" where
  "wf_ndarray a = (length (flat a) = prod_list (shape a))"

text \<open>\<^verbatim>\<open>np.unravel_index\<close> and \<^verbatim>\<open>np.ravel_multi_index\<close> for C order.\<close>

fun unravel_index :: "nat \<Rightarrow> nat list \<Rightarrow> nat list" where
  "unravel_index i [] = []"
| "unravel_index i (d # ds) = (i div prod_list ds) # unravel_index (i mod prod_list ds) ds"

fun ravel_multi_index :: "nat list \<Rightarrow> nat list \<Rightarrow> nat" where
  "ravel_multi_index (c # cs) (d # ds) = c * prod_list ds + ravel_multi_index cs ds"
| "ravel_multi_index _ _ = 0"

definition in_bounds :: "nat list \<Rightarrow> nat list \<Rightarrow> bool" where
  "in_bounds idx sh = list_all2 (<) idx sh"

text \<open>Distances between two multi-indices: the sum and the maximum of the per-axis gaps.\<close>

fun l1_dist :: "nat list \<Rightarrow> nat list \<Rightarrow> nat" where
  "l1_dist (a # as) (b # bs) = (if a \<le> b then b - a else a - b) + l1_dist as bs"
| "l1_dist _ _ = 0"

fun chebyshev_dist :: "nat list \<Rightarrow> nat list \<Rightarrow> nat" where
  "chebyshev_dist (a # as) (b # bs) = max (if a \<le> b then b - a else a - b) (chebyshev_dist as bs)"
| "chebyshev_dist _ _ = 0"

text \<open>
  Face adjacency: the indices differ by one in exactly one axis.  Full adjacency: two
  different cells whose indices differ by at most one in every axis.
\<close>

definition face_adjacent :: "nat list \<Rightarrow> nat list \<Rightarrow> bool" where
  "face_adjacent a b = (length a = length b \<and> l1_dist a b = 1)"

definition full_adjacent :: "nat list \<Rightarrow> nat list \<Rightarrow> bool" where
  "full_adjacent a b = (length a = length b \<and> chebyshev_dist a b = 1)"

section \<open>Connected-component labelling\<close>

text \<open>
  \<^verbatim>\<open>scipy.ndimage.label(input)\<close> is called without a \<^verbatim>\<open>structure\<close> argument, so SciPy
  generates the structuring element of squared connectivity one: a cell is joined to the
  cells one step away along a single axis.  \<open>face_steps\<close> lists these cells of a multi-index,
  \<open>face_neighbours\<close> gives them as flat positions.
\<close>

fun face_steps :: "nat list \<Rightarrow> nat list \<Rightarrow> nat list list" where
  "face_steps (c # cs) (d # ds) =
     (if 0 < c then [(c - 1) # cs] else []) @
     (if c + 1 < d then [(c + 1) # cs] else []) @
     map ((#) c) (face_steps cs ds)"
| "face_steps _ _ = []"

definition face_neighbours :: "nat list \<Rightarrow> nat \<Rightarrow> nat list" where
  "face_neighbours sh i = map (\<lambda>b. ravel_multi_index b sh) (face_steps (unravel_index i sh) sh)"

text \<open>
  The labelling visits the cells in raster order.  Each foreground cell that has no label
  yet starts a new feature, numbered one more than the last, and the feature is filled from
  that cell through the neighbour function \<open>nb\<close>.  Label 0 is the background.
\<close>

function flood :: "(nat \<Rightarrow> nat list) \<Rightarrow> bool list \<Rightarrow> nat \<Rightarrow> nat list \<Rightarrow> nat list \<Rightarrow> nat list" where
  "flood nb fg l [] labs = labs"
| "flood nb fg l (w # ws) labs =
     (if w < length labs \<and> w < length fg \<and> fg ! w \<and> labs ! w = 0 \<and> l \<noteq> 0
      then flood nb fg l (nb w @ ws) (labs[w := l])
      else flood nb fg l ws labs)"
  by pat_completeness auto

definition unlabelled :: "nat list \<Rightarrow> nat" where
  "unlabelled labs = length (filter (\<lambda>x. x = 0) labs)"

lemma unlabelled_update:
  "w < length labs \<Longrightarrow> labs ! w = 0 \<Longrightarrow> l \<noteq> 0 \<Longrightarrow> unlabelled (labs[w := l]) < unlabelled labs"
proof (induction labs arbitrary: w)
  case Nil
  then show ?case by simp
next
  case (Cons x xs)
  show ?case
  proof (cases w)
    case 0
    with Cons.prems show ?thesis by (simp add: unlabelled_def)
  next
    case (Suc v)
    with Cons.prems have "unlabelled (xs[v := l]) < unlabelled xs"
      by (intro Cons.IH) simp_all
    with Suc show ?thesis by (simp add: unlabelled_def)
  qed
qed

termination flood
  by (relation "measures [\<lambda>(nb, fg, l, ws, labs). unlabelled labs,
                          \<lambda>(nb, fg, l, ws, labs). length ws]")
     (auto simp: unlabelled_update)

fun label_scan :: "(nat \<Rightarrow> nat list) \<Rightarrow> bool list \<Rightarrow> nat list \<Rightarrow> nat list \<times> nat \<Rightarrow> nat list \<times> nat" where
  "label_scan nb fg [] (labs, k) = (labs, k)"
| "label_scan nb fg (i # is) (labs, k) =
     (if fg ! i \<and> labs ! i = 0
      then label_scan nb fg is (flood nb fg (Suc k) [i] labs, Suc k)
      else label_scan nb fg is (labs, k))"

definition label_with :: "(nat \<Rightarrow> nat list) \<Rightarrow> bool list \<Rightarrow> nat list \<times> nat" where
  "label_with nb fg = label_scan nb fg [0..<length fg] (replicate (length fg) 0, 0)"

text \<open>
  \<^verbatim>\<open>ndimage.label\<close> on a volume: every non-zero element is foreground, the result is
  the array of labels and the number of features.  Volumes hold integers here; a boolean
  volume holds 0 and 1.
\<close>

definition label :: "int ndarray \<Rightarrow> nat ndarray \<times> nat" where
  "label input =
     (let (labs, label_nb) = label_with (face_neighbours (shape input)) (map (\<lambda>x. x \<noteq> 0) (flat input))
      in (\<lparr>shape = shape input, flat = labs\<rparr>, label_nb))"

section \<open>The largest connected component\<close>

text \<open>
  The exceptions of the two functions: the \<^verbatim>\<open>ValueError\<close> of line 34 for an argument
  that is not an array, the \<^verbatim>\<open>ValueError\<close> of line 41 for a volume without non-zero
  values, and the \<^verbatim>\<open>IndexError\<close> of \<^verbatim>\<open>image.flat[0]\<close> on an array without cells.
\<close>

datatype error = InvalidInputKind | NoComponentsError | IndexError

text \<open>
  What a caller may pass as \<^verbatim>\<open>volume\<close>: an array, an image object (it has
  \<^verbatim>\<open>get_data\<close>) or a string holding a path.
\<close>

datatype volume_arg = Array "int ndarray" | Image | Path string

definition astype_bool :: "int ndarray \<Rightarrow> bool ndarray" where
  "astype_bool a = \<lparr>shape = shape a, flat = map (\<lambda>x. x \<noteq> 0) (flat a)\<rparr>"


text \<open>\<^verbatim>\<open>np.bincount\<close>: how often each value from 0 to the largest one occurs.\<close>

definition bincount :: "nat list \<Rightarrow> nat list" where
  "bincount xs = (if xs = [] then [] else map (count_list xs) [0..<Suc (Max (set xs))])"

text \<open>
  \<^verbatim>\<open>argmax\<close>: the first position that holds the maximum.  NumPy raises on an empty
  array; the size table it is applied to is never empty (\<open>label_count_facts\<close> below).
\<close>

definition argmax :: "nat list \<Rightarrow> nat" where
  "argmax xs = length (takeWhile (\<lambda>x. x \<noteq> Max (set xs)) xs)"

text \<open>
  Lines 44 to 47: the size table, the background count forced to zero, and the cells whose
  label is the first one of maximal count.
\<close>

definition select_largest :: "nat ndarray \<Rightarrow> bool ndarray" where
  "select_largest labels =
     (let label_count = (bincount (flat labels))[0 := 0]
      in \<lparr>shape = shape labels, flat = map (\<lambda>l. l = argmax label_count) (flat labels)\<rparr>)"

text \<open>\<^verbatim>\<open>largest_connected_component\<close>, lines 32 to 47.\<close>

fun largest_connected_component :: "volume_arg \<Rightarrow> error + bool ndarray" where
  "largest_connected_component Image = Inl InvalidInputKind"
| "largest_connected_component (Path p) = Inl InvalidInputKind"
| "largest_connected_component (Array volume) =
     (let (labels, label_nb) = label volume
      in if label_nb = 0 then Inl NoComponentsError
         else if label_nb = 1 then Inr (astype_bool volume)
         else Inr (select_largest labels))"

section \<open>Peak detection\<close>

text \<open>
  Intensities are exact real numbers.  The comparisons, the maximum and the product with
  the mask (a value times 1 or 0) are exact on finite floating-point values as well; the
  product \<^verbatim>\<open>np.max(image.ravel()) * threshold_rel\<close> of line 151 is rounded in the code and
  exact here.  NaN and infinite values are outside the model.
  \<^verbatim>\<open>num_peaks\<close> is a Python integer or \<^verbatim>\<open>np.inf\<close>, its default.
\<close>

datatype num_peaks_arg = Finite int | Infinite

text \<open>\<^verbatim>\<open>np.zeros_like(image, dtype=np.bool)\<close>.\<close>

definition zeros_like :: "'a ndarray \<Rightarrow> bool ndarray" where
  "zeros_like a = \<lparr>shape = shape a, flat = replicate (length (flat a)) False\<rparr>"

text \<open>
  \<^verbatim>\<open>ndimage.maximum_filter(image, size=size, mode='constant')\<close>.  SciPy filters one axis
  after the other and leaves out every axis whose size is not above one; the size is the
  same for all axes here, so for a size of one or less, negative sizes included, the result
  is a copy of the input and nothing is raised.  For a larger size each cell gets the
  maximum over the window of \<open>sz\<close> positions per axis centred on it (origin 0), read from
  the grid padded with the constant 0 (\<^verbatim>\<open>cval\<close>'s default) outside its bounds.
\<close>

definition window_offsets :: "nat \<Rightarrow> int list" where
  "window_offsets sz = [- int (sz div 2) .. int sz - 1 - int (sz div 2)]"

fun window :: "nat \<Rightarrow> int list \<Rightarrow> int list list" where
  "window sz [] = [[]]"
| "window sz (c # cs) = concat (map (\<lambda>off. map ((#) (c + off)) (window sz cs)) (window_offsets sz))"

definition padded :: "real ndarray \<Rightarrow> int list \<Rightarrow> real" where
  "padded a pos =
     (if list_all2 (\<lambda>c d. 0 \<le> c \<and> c < int d) pos (shape a)
      then flat a ! ravel_multi_index (map nat pos) (shape a)
      else 0)"

definition window_maximum :: "real ndarray \<Rightarrow> nat \<Rightarrow> real ndarray" where
  "window_maximum a sz =
     \<lparr>shape = shape a,
      flat = map (\<lambda>i. Max (set (map (padded a) (window sz (map int (unravel_index i (shape a)))))))
                 [0..<length (flat a)]\<rparr>"

definition maximum_filter :: "real ndarray \<Rightarrow> int \<Rightarrow> real ndarray" where
  "maximum_filter a sz = (if sz \<le> 1 then a else window_maximum a (nat sz))"

text \<open>
  Lines 145 to 148: the filtered grid, the mask of the cells equal to it, and the grid
  multiplied by the mask.
\<close>

definition masked_image :: "real ndarray \<Rightarrow> int \<Rightarrow> real ndarray" where
  "masked_image img sz =
     (let image_max = maximum_filter img sz;
          mask = map2 (=) (flat img) (flat image_max)
      in \<lparr>shape = shape img, flat = map2 (\<lambda>x b. x * (if b then 1 else 0)) (flat img) mask\<rparr>)"

text \<open>\<^verbatim>\<open>np.argwhere\<close>: the multi-indices of the true cells, in raster order.\<close>

definition argwhere :: "bool ndarray \<Rightarrow> nat list list" where
  "argwhere a = map (\<lambda>i. unravel_index i (shape a)) (filter (\<lambda>i. flat a ! i) [0..<length (flat a)])"

text \<open>
  \<^verbatim>\<open>np.argsort\<close> returns the positions of a list in ascending order of their values.
  NumPy's default sort promises no order among equal values, so the detector below takes
  the sort as its first argument \<open>argsort\<close>, and what is proved about it assumes no more
  than \<open>sorting_permutation\<close>: the result is a permutation of the positions that puts
  the values in ascending order.  \<open>stable_argsort\<close> is one such sort, the one that keeps
  equal values in their order; it is what the examples run.
\<close>

definition sorting_permutation :: "(real list \<Rightarrow> nat list) \<Rightarrow> bool" where
  "sorting_permutation argsort =
     (\<forall>xs. length (argsort xs) = length xs \<and> set (argsort xs) = {0..<length xs} \<and>
           sorted (map (\<lambda>j. xs ! j) (argsort xs)))"

definition stable_argsort :: "real list \<Rightarrow> nat list" where
  "stable_argsort xs = map snd (sort_key fst (zip xs [0..<length xs]))"

text \<open>
  The Python slice \<^verbatim>\<open>xs[:k]\<close>: the first \<open>k\<close> elements, and for a negative \<open>k\<close> all but
  the last \<open>- k\<close>.
\<close>

definition slice_upto :: "int \<Rightarrow> 'a list \<Rightarrow> 'a list" where
  "slice_upto k xs = (if 0 \<le> k then take (nat k) xs else take (nat (int (length xs) + k)) xs)"

text \<open>Lines 161 and 162: \<^verbatim>\<open>out[tuple(coordinates.T)] = True\<close>.\<close>

definition set_true :: "bool ndarray \<Rightarrow> nat list list \<Rightarrow> bool ndarray" where
  "set_true out coordinates =
     \<lparr>shape = shape out,
      flat = foldl (\<lambda>fl c. fl[ravel_multi_index c (shape out) := True]) (flat out) coordinates\<rparr>"

text \<open>
  \<^verbatim>\<open>_peak_local_max\<close>, lines 137 to 163, with the sort of line 157 as the argument
  \<open>argsort\<close>.  The names \<open>image\<close> and \<open>size\<close> are taken in HOL, so the grid is \<open>img\<close>
  and the filter size \<open>sz\<close>.
\<close>

definition peak_local_max ::
  "(real list \<Rightarrow> nat list) \<Rightarrow> real ndarray \<Rightarrow> int \<Rightarrow> real \<Rightarrow> real \<Rightarrow> num_peaks_arg \<Rightarrow>
     error + bool ndarray" where
  "peak_local_max argsort img min_distance threshold_abs threshold_rel num_peaks =
     (let out = zeros_like img in
      case flat img of
        [] \<Rightarrow> Inl IndexError
      | x0 # _ \<Rightarrow>
          if list_all (\<lambda>x. x = x0) (flat img) then Inr out
          else
            let sz = 2 * min_distance + 1;
                masked = masked_image img sz;
                peak_threshold = max (Max (set (flat masked)) * threshold_rel) threshold_abs;
                coordinates =
                  argwhere \<lparr>shape = shape masked, flat = map (\<lambda>x. x > peak_threshold) (flat masked)\<rparr>;
                coordinates' =
                  (case num_peaks of
                     Infinite \<Rightarrow> coordinates
                   | Finite k \<Rightarrow>
                       if int (length coordinates) > k
                       then
                         let intensities =
                               map (\<lambda>c. flat masked ! ravel_multi_index c (shape masked)) coordinates;
                             idx_maxsort = rev (argsort intensities)
                         in slice_upto k (map (\<lambda>j. coordinates ! j) idx_maxsort)
                       else coordinates)
            in Inr (set_true out coordinates'))"

section \<open>Specification vocabulary\<close>

text \<open>
  Connectivity as a relation on flat positions: \<open>conn nb fg\<close> joins two foreground cells
  when the second is a neighbour of the first.  A neighbour function is symmetric on a grid
  of \<open>n\<close> cells when being a neighbour goes both ways.
\<close>

definition conn :: "(nat \<Rightarrow> nat list) \<Rightarrow> bool list \<Rightarrow> (nat \<times> nat) set" where
  "conn nb fg = {(i, j). i < length fg \<and> j < length fg \<and> fg ! i \<and> fg ! j \<and> j \<in> set (nb i)}"

definition nb_sym :: "nat \<Rightarrow> (nat \<Rightarrow> nat list) \<Rightarrow> bool" where
  "nb_sym n nb = (\<forall>i<n. \<forall>j<n. j \<in> set (nb i) \<longrightarrow> i \<in> set (nb j))"

text \<open>
  The invariant of the fill for label \<open>l\<close> started at cell \<open>s\<close>, with \<open>ws\<close> the pending
  cells: only foreground cells are labelled, the older features are closed under the
  neighbour function, every foreground neighbour of a cell labelled \<open>l\<close> is labelled \<open>l\<close>
  or pending, and every cell labelled \<open>l\<close> or pending in the foreground is connected to \<open>s\<close>.
\<close>

definition flood_inv :: "(nat \<Rightarrow> nat list) \<Rightarrow> bool list \<Rightarrow> nat \<Rightarrow> nat \<Rightarrow> nat list \<Rightarrow> nat list \<Rightarrow> bool" where
  "flood_inv nb fg l s ws labs =
     (length labs = length fg \<and>
      (\<forall>i<length fg. labs ! i \<noteq> 0 \<longrightarrow> fg ! i) \<and>
      (\<forall>i<length fg. labs ! i \<noteq> 0 \<longrightarrow> labs ! i \<noteq> l \<longrightarrow>
          (\<forall>j\<in>set (nb i). j < length fg \<longrightarrow> fg ! j \<longrightarrow> labs ! j = labs ! i)) \<and>
      (\<forall>i<length fg. labs ! i = l \<longrightarrow>
          (\<forall>j\<in>set (nb i). j < length fg \<longrightarrow> fg ! j \<longrightarrow> labs ! j = l \<or> j \<in> set ws)) \<and>
      (\<forall>i<length fg. labs ! i = l \<longrightarrow> (s, i) \<in> (conn nb fg)\<^sup>*) \<and>
      (\<forall>w\<in>set ws. w < length fg \<longrightarrow> fg ! w \<longrightarrow> (s, w) \<in> (conn nb fg)\<^sup>*))"

text \<open>
  The invariant of the raster scan at position \<open>pos\<close> with \<open>k\<close> features found: every
  feature is closed under the neighbour function, the foreground cells before \<open>pos\<close> are
  labelled, and each label from 1 to \<open>k\<close> has a root cell before \<open>pos\<close> that is connected
  to all cells of its label and precedes every cell of its own or a later label.
\<close>

definition scan_inv :: "(nat \<Rightarrow> nat list) \<Rightarrow> bool list \<Rightarrow> nat \<Rightarrow> nat list \<Rightarrow> nat \<Rightarrow> bool" where
  "scan_inv nb fg pos labs k =
     (length labs = length fg \<and>
      (\<forall>i<length fg. labs ! i \<noteq> 0 \<longrightarrow> fg ! i) \<and>
      (\<forall>i<length fg. labs ! i \<noteq> 0 \<longrightarrow>
          (\<forall>j\<in>set (nb i). j < length fg \<longrightarrow> fg ! j \<longrightarrow> labs ! j = labs ! i)) \<and>
      (\<forall>i<length fg. labs ! i \<le> k) \<and>
      (\<forall>i<length fg. i < pos \<longrightarrow> fg ! i \<longrightarrow> labs ! i \<noteq> 0) \<and>
      (\<forall>l. 0 < l \<longrightarrow> l \<le> k \<longrightarrow>
          (\<exists>r<length fg. r < pos \<and> labs ! r = l \<and>
              (\<forall>i<length fg. labs ! i = l \<longrightarrow> (r, i) \<in> (conn nb fg)\<^sup>*) \<and>
              (\<forall>i<length fg. l \<le> labs ! i \<longrightarrow> r \<le> i))))"

text \<open>
  The foreground of a volume, the face-adjacency relation between its foreground cells, the
  connected component of a cell under it, and volumes whose foreground is one such
  component.  \<open>full_rel\<close> and \<open>single_full_component\<close> are the same with the diagonal
  neighbours counted as adjacent.
\<close>

definition foreground :: "int ndarray \<Rightarrow> nat \<Rightarrow> bool" where
  "foreground v i = (i < length (flat v) \<and> flat v ! i \<noteq> 0)"

definition face_rel :: "int ndarray \<Rightarrow> (nat \<times> nat) set" where
  "face_rel v = {(i, j). foreground v i \<and> foreground v j \<and>
                   face_adjacent (unravel_index i (shape v)) (unravel_index j (shape v))}"

definition component :: "int ndarray \<Rightarrow> nat \<Rightarrow> nat set" where
  "component v c = {i. (c, i) \<in> (face_rel v)\<^sup>*}"

definition single_face_component :: "int ndarray \<Rightarrow> bool" where
  "single_face_component v = (\<exists>c. foreground v c \<and> (\<forall>i. foreground v i \<longrightarrow> (c, i) \<in> (face_rel v)\<^sup>*))"

definition full_rel :: "int ndarray \<Rightarrow> (nat \<times> nat) set" where
  "full_rel v = {(i, j). foreground v i \<and> foreground v j \<and>
                   full_adjacent (unravel_index i (shape v)) (unravel_index j (shape v))}"

definition single_full_component :: "int ndarray \<Rightarrow> bool" where
  "single_full_component v = (\<exists>c. foreground v c \<and> (\<forall>i. foreground v i \<longrightarrow> (c, i) \<in> (full_rel v)\<^sup>*))"

text \<open>
  Vocabulary for the peak detector: grids whose cells are all equal, the threshold of
  line 151, the flat positions above it (the rows of \<^verbatim>\<open>coordinates\<close>), the positions
  left after the truncation to \<open>num_peaks\<close>, and the true cells of a mask.
\<close>

definition constant_grid :: "real ndarray \<Rightarrow> bool" where
  "constant_grid img = (\<forall>x\<in>set (flat img). \<forall>y\<in>set (flat img). x = y)"

definition peak_threshold :: "real ndarray \<Rightarrow> int \<Rightarrow> real \<Rightarrow> real \<Rightarrow> real" where
  "peak_threshold img sz threshold_abs threshold_rel =
     max (Max (set (flat (masked_image img sz))) * threshold_rel) threshold_abs"

definition survivors :: "real ndarray \<Rightarrow> int \<Rightarrow> real \<Rightarrow> real \<Rightarrow> nat list" where
  "survivors img sz threshold_abs threshold_rel =
     filter (\<lambda>i. flat (masked_image img sz) ! i > peak_threshold img sz threshold_abs threshold_rel)
       [0..<length (flat img)]"

definition kept ::
  "(real list \<Rightarrow> nat list) \<Rightarrow> real ndarray \<Rightarrow> int \<Rightarrow> real \<Rightarrow> real \<Rightarrow> num_peaks_arg \<Rightarrow> nat list" where
  "kept argsort img sz threshold_abs threshold_rel num_peaks =
     (let sel = survivors img sz threshold_abs threshold_rel in
      case num_peaks of
        Infinite \<Rightarrow> sel
      | Finite k \<Rightarrow>
          if int (length sel) > k
          then slice_upto k (map (\<lambda>j. sel ! j) (rev (argsort (map (\<lambda>i. flat (masked_image img sz) ! i) sel))))
          else sel)"

definition true_cells :: "bool ndarray \<Rightarrow> nat set" where
  "true_cells out = {i. i < length (flat out) \<and> flat out ! i}"

text \<open>
  The values a window of radius \<open>r\<close> around cell \<open>i\<close> sees: the cells of the grid within
  Chebyshev distance \<open>r\<close>, and the padding value 0 when the window reaches outside the grid.
\<close>

definition window_inside :: "nat list \<Rightarrow> nat \<Rightarrow> nat list \<Rightarrow> bool" where
  "window_inside sh r a = list_all2 (\<lambda>c d. r \<le> c \<and> c + r < d) a sh"

definition window_values :: "real ndarray \<Rightarrow> nat \<Rightarrow> nat \<Rightarrow> real set" where
  "window_values img r i =
     {flat img ! j | j. j < length (flat img) \<and>
        chebyshev_dist (unravel_index i (shape img)) (unravel_index j (shape img)) \<le> r} \<union>
     (if window_inside (shape img) r (unravel_index i (shape img)) then {} else {0})"


section \<open>The operations on a store of arrays\<close>

text \<open>
  NumPy arrays are objects that several names may share and that some operations change in
  place.  The store keeps the arrays of each element type in a list; a reference is a
  position in the list of its type, a new array is appended, and an in-place operation
  replaces the array at its reference.
\<close>

record store =
  ints :: "int ndarray list"
  reals :: "real ndarray list"
  bools :: "bool ndarray list"
  nats :: "nat ndarray list"

definition new_real :: "real ndarray \<Rightarrow> store \<Rightarrow> nat \<times> store" where
  "new_real a s = (length (reals s), s\<lparr>reals := reals s @ [a]\<rparr>)"

definition new_bool :: "bool ndarray \<Rightarrow> store \<Rightarrow> nat \<times> store" where
  "new_bool a s = (length (bools s), s\<lparr>bools := bools s @ [a]\<rparr>)"

definition new_nat :: "nat ndarray \<Rightarrow> store \<Rightarrow> nat \<times> store" where
  "new_nat a s = (length (nats s), s\<lparr>nats := nats s @ [a]\<rparr>)"

text \<open>
  \<open>peak_local_max\<close> line by line.  Line 137 allocates \<open>out\<close>; line 142 rebinds the name
  \<open>image\<close> to a fresh copy; lines 145 and 147 allocate the filtered grid and the mask;
  line 148 multiplies in place the array the name \<open>image\<close> now refers to; line 162 writes
  into \<open>out\<close> in place.
\<close>

definition peak_local_max_st ::
  "(real list \<Rightarrow> nat list) \<Rightarrow> store \<Rightarrow> nat \<Rightarrow> int \<Rightarrow> real \<Rightarrow> real \<Rightarrow> num_peaks_arg \<Rightarrow>
     (error + nat) \<times> store" where
  "peak_local_max_st argsort s img min_distance threshold_abs threshold_rel num_peaks =
     (let (out, s1) = new_bool (zeros_like (reals s ! img)) s in
      case flat (reals s1 ! img) of
        [] \<Rightarrow> (Inl IndexError, s1)
      | x0 # _ \<Rightarrow>
          if list_all (\<lambda>x. x = x0) (flat (reals s1 ! img)) then (Inr out, s1)
          else
            let (img', s2) = new_real (reals s1 ! img) s1;
                sz = 2 * min_distance + 1;
                (image_max, s3) = new_real (maximum_filter (reals s2 ! img') sz) s2;
                (mask, s4) =
                  new_bool \<lparr>shape = shape (reals s3 ! img'),
                            flat = map2 (=) (flat (reals s3 ! img')) (flat (reals s3 ! image_max))\<rparr> s3;
                s5 = s4\<lparr>reals := (reals s4)[img' :=
                        \<lparr>shape = shape (reals s4 ! img'),
                         flat = map2 (\<lambda>x b. x * (if b then 1 else 0))
                                  (flat (reals s4 ! img')) (flat (bools s4 ! mask))\<rparr>]\<rparr>;
                masked = reals s5 ! img';
                peak_threshold = max (Max (set (flat masked)) * threshold_rel) threshold_abs;
                coordinates =
                  argwhere \<lparr>shape = shape masked, flat = map (\<lambda>x. x > peak_threshold) (flat masked)\<rparr>;
                coordinates' =
                  (case num_peaks of
                     Infinite \<Rightarrow> coordinates
                   | Finite k \<Rightarrow>
                       if int (length coordinates) > k
                       then
                         let intensities =
                               map (\<lambda>c. flat masked ! ravel_multi_index c (shape masked)) coordinates;
                             idx_maxsort = rev (argsort intensities)
                         in slice_upto k (map (\<lambda>j. coordinates ! j) idx_maxsort)
                       else coordinates);
                s6 = s5\<lparr>bools := (bools s5)[out := set_true (bools s5 ! out) coordinates']\<rparr>
            in (Inr out, s6))"

text \<open>
  \<open>largest_connected_component\<close> line by line.  \<^verbatim>\<open>np.asarray\<close> of an array is the array
  itself; \<^verbatim>\<open>ndimage.label\<close> allocates the labels; \<^verbatim>\<open>astype\<close>, \<^verbatim>\<open>bincount\<close> and the
  comparison allocate their results; line 46 writes into the fresh size table in place.
\<close>

datatype volume_ref = ArrayRef nat | ImageRef | PathRef string

fun largest_connected_component_st :: "store \<Rightarrow> volume_ref \<Rightarrow> (error + nat) \<times> store" where
  "largest_connected_component_st s ImageRef = (Inl InvalidInputKind, s)"
| "largest_connected_component_st s (PathRef p) = (Inl InvalidInputKind, s)"
| "largest_connected_component_st s (ArrayRef volume) =
     (let (labels_value, label_nb) = label (ints s ! volume);
          (labels, s1) = new_nat labels_value s
      in if label_nb = 0 then (Inl NoComponentsError, s1)
         else if label_nb = 1
         then let (r, s2) = new_bool (astype_bool (ints s1 ! volume)) s1 in (Inr r, s2)
         else
           let (label_count, s2) =
                 new_nat \<lparr>shape = [length (bincount (flat (nats s1 ! labels)))],
                          flat = bincount (flat (nats s1 ! labels))\<rparr> s1;
               s3 = s2\<lparr>nats := (nats s2)[label_count :=
                        \<lparr>shape = shape (nats s2 ! label_count),
                         flat = (flat (nats s2 ! label_count))[0 := 0]\<rparr>]\<rparr>;
               (r, s4) =
                 new_bool \<lparr>shape = shape (nats s3 ! labels),
                           flat = map (\<lambda>l. l = argmax (flat (nats s3 ! label_count)))
                                      (flat (nats s3 ! labels))\<rparr> s3
           in (Inr r, s4))"

text \<open>A store extends another when every array of the first is in the second, unchanged.\<close>

definition preserved :: "store \<Rightarrow> store \<Rightarrow> bool" where
  "preserved s s' =
     (take (length (ints s)) (ints s') = ints s \<and>
      take (length (reals s)) (reals s') = reals s \<and>
      take (length (bools s)) (bools s') = bools s \<and>
      take (length (nats s)) (nats s') = nats s)"

definition result_is :: "(error + nat) \<times> store \<Rightarrow> error + bool ndarray \<Rightarrow> bool" where
  "result_is r v =
     (case fst r of
        Inl e \<Rightarrow> v = Inl e
      | Inr p \<Rightarrow> p < length (bools (snd r)) \<and> v = Inr (bools (snd r) ! p))"

section \<open>The fill keeps its invariant\<close>
lemma flood_invI:
  "length labs = length fg \<Longrightarrow>
   \<forall>i<length fg. labs ! i \<noteq> 0 \<longrightarrow> fg ! i \<Longrightarrow>
   \<forall>i<length fg. labs ! i \<noteq> 0 \<longrightarrow> labs ! i \<noteq> l \<longrightarrow>
          (\<forall>j\<in>set (nb i). j < length fg \<longrightarrow> fg ! j \<longrightarrow> labs ! j = labs ! i) \<Longrightarrow>
   \<forall>i<length fg. labs ! i = l \<longrightarrow>
          (\<forall>j\<in>set (nb i). j < length fg \<longrightarrow> fg ! j \<longrightarrow> labs ! j = l \<or> j \<in> set ws) \<Longrightarrow>
   \<forall>i<length fg. labs ! i = l \<longrightarrow> (s, i) \<in> (conn nb fg)\<^sup>* \<Longrightarrow>
   \<forall>w\<in>set ws. w < length fg \<longrightarrow> fg ! w \<longrightarrow> (s, w) \<in> (conn nb fg)\<^sup>* \<Longrightarrow>
   flood_inv nb fg l s ws labs"
  unfolding flood_inv_def by (intro conjI)

lemma flood_invD:
  assumes "flood_inv nb fg l s ws labs"
  shows "length labs = length fg"
    and "\<forall>i<length fg. labs ! i \<noteq> 0 \<longrightarrow> fg ! i"
    and "\<forall>i<length fg. labs ! i \<noteq> 0 \<longrightarrow> labs ! i \<noteq> l \<longrightarrow>
          (\<forall>j\<in>set (nb i). j < length fg \<longrightarrow> fg ! j \<longrightarrow> labs ! j = labs ! i)"
    and "\<forall>i<length fg. labs ! i = l \<longrightarrow>
          (\<forall>j\<in>set (nb i). j < length fg \<longrightarrow> fg ! j \<longrightarrow> labs ! j = l \<or> j \<in> set ws)"
    and "\<forall>i<length fg. labs ! i = l \<longrightarrow> (s, i) \<in> (conn nb fg)\<^sup>*"
    and "\<forall>w\<in>set ws. w < length fg \<longrightarrow> fg ! w \<longrightarrow> (s, w) \<in> (conn nb fg)\<^sup>*"
  using assms unfolding flood_inv_def
  apply -
       apply (elim conjE, assumption)+
  done

lemma flood_Cons_label:
  "w < length labs \<and> w < length fg \<and> fg ! w \<and> labs ! w = 0 \<and> l \<noteq> 0 \<Longrightarrow>
   flood nb fg l (w # ws) labs = flood nb fg l (nb w @ ws) (labs[w := l])"
  by (subst flood.simps(2)) simp

lemma flood_Cons_skip:
  "\<not> (w < length labs \<and> w < length fg \<and> fg ! w \<and> labs ! w = 0 \<and> l \<noteq> 0) \<Longrightarrow>
   flood nb fg l (w # ws) labs = flood nb fg l ws labs"
  by (subst flood.simps(2)) auto

lemma flood_inv_label:
  assumes inv: "flood_inv nb fg l s (w # ws) labs"
    and g: "w < length labs" "w < length fg" "fg ! w" "labs ! w = 0" "l \<noteq> 0"
  shows "flood_inv nb fg l s (nb w @ ws) (labs[w := l])"
proof -
  let ?n = "length fg" and ?labs = "labs[w := l]"
  note D0 = flood_invD[OF inv]
  have len: "length labs = ?n" by (rule D0(1))
  have b: "\<And>i. i < ?n \<Longrightarrow> labs ! i \<noteq> 0 \<Longrightarrow> fg ! i"
    using D0(2) by blast
  have c: "\<And>i j. i < ?n \<Longrightarrow> labs ! i \<noteq> 0 \<Longrightarrow> labs ! i \<noteq> l \<Longrightarrow> j \<in> set (nb i) \<Longrightarrow> j < ?n \<Longrightarrow> fg ! j
              \<Longrightarrow> labs ! j = labs ! i"
    using D0(3) by blast
  have d: "\<And>i j. i < ?n \<Longrightarrow> labs ! i = l \<Longrightarrow> j \<in> set (nb i) \<Longrightarrow> j < ?n \<Longrightarrow> fg ! j
              \<Longrightarrow> labs ! j = l \<or> j \<in> set (w # ws)"
    using D0(4) by blast
  have e: "\<And>i. i < ?n \<Longrightarrow> labs ! i = l \<Longrightarrow> (s, i) \<in> (conn nb fg)\<^sup>*"
    using D0(5) by blast
  have f: "\<And>v. v \<in> set (w # ws) \<Longrightarrow> v < ?n \<Longrightarrow> fg ! v \<Longrightarrow> (s, v) \<in> (conn nb fg)\<^sup>*"
    using D0(6) by blast
  have sw: "(s, w) \<in> (conn nb fg)\<^sup>*" using f[of w] g by simp
  have nth: "\<And>i. i < ?n \<Longrightarrow> ?labs ! i = (if i = w then l else labs ! i)"
    using len by (simp add: nth_list_update)
  have A: "length ?labs = ?n" using len by simp
  have B: "\<forall>i<?n. ?labs ! i \<noteq> 0 \<longrightarrow> fg ! i"
    using b g nth by auto
  have C: "\<forall>i<?n. ?labs ! i \<noteq> 0 \<longrightarrow> ?labs ! i \<noteq> l \<longrightarrow>
          (\<forall>j\<in>set (nb i). j < ?n \<longrightarrow> fg ! j \<longrightarrow> ?labs ! j = ?labs ! i)"
  proof (intro allI impI ballI)
    fix i j assume h: "i < ?n" "?labs ! i \<noteq> 0" "?labs ! i \<noteq> l" "j \<in> set (nb i)" "j < ?n" "fg ! j"
    from h nth have iw: "i \<noteq> w" by auto
    with h nth have i0: "labs ! i \<noteq> 0" "labs ! i \<noteq> l" by auto
    from c[OF h(1) i0 h(4) h(5) h(6)] have eq: "labs ! j = labs ! i" .
    with i0 g have "j \<noteq> w" by auto
    with eq iw nth h show "?labs ! j = ?labs ! i" by simp
  qed
  have D: "\<forall>i<?n. ?labs ! i = l \<longrightarrow>
          (\<forall>j\<in>set (nb i). j < ?n \<longrightarrow> fg ! j \<longrightarrow> ?labs ! j = l \<or> j \<in> set (nb w @ ws))"
  proof (intro allI impI ballI)
    fix i j assume h: "i < ?n" "?labs ! i = l" "j \<in> set (nb i)" "j < ?n" "fg ! j"
    show "?labs ! j = l \<or> j \<in> set (nb w @ ws)"
    proof (cases "i = w")
      case True
      with h show ?thesis by simp
    next
      case False
      with h nth have "labs ! i = l" by simp
      from d[OF h(1) this h(3) h(4) h(5)] have "labs ! j = l \<or> j \<in> set (w # ws)" .
      then show ?thesis using nth[OF h(4)] by auto
    qed
  qed
  have E: "\<forall>i<?n. ?labs ! i = l \<longrightarrow> (s, i) \<in> (conn nb fg)\<^sup>*"
    using e sw nth by auto
  have F: "\<forall>v\<in>set (nb w @ ws). v < ?n \<longrightarrow> fg ! v \<longrightarrow> (s, v) \<in> (conn nb fg)\<^sup>*"
  proof (intro ballI impI)
    fix v assume h: "v \<in> set (nb w @ ws)" "v < ?n" "fg ! v"
    show "(s, v) \<in> (conn nb fg)\<^sup>*"
    proof (cases "v \<in> set ws")
      case True
      then show ?thesis using f[of v] h by simp
    next
      case False
      with h have "v \<in> set (nb w)" by simp
      with h g have "(w, v) \<in> conn nb fg" by (simp add: conn_def)
      with sw show ?thesis by (rule rtrancl_into_rtrancl)
    qed
  qed
  show ?thesis by (rule flood_invI[OF A B C D E F])
qed

lemma flood_inv_skip:
  assumes inv: "flood_inv nb fg l s (w # ws) labs"
    and g: "\<not> (w < length labs \<and> w < length fg \<and> fg ! w \<and> labs ! w = 0 \<and> l \<noteq> 0)"
    and l: "l \<noteq> 0" and sym: "nb_sym (length fg) nb"
  shows "flood_inv nb fg l s ws labs"
proof -
  let ?n = "length fg"
  note D0 = flood_invD[OF inv]
  have len: "length labs = ?n" by (rule D0(1))
  have b: "\<And>i. i < ?n \<Longrightarrow> labs ! i \<noteq> 0 \<Longrightarrow> fg ! i"
    using D0(2) by blast
  have c: "\<And>i j. i < ?n \<Longrightarrow> labs ! i \<noteq> 0 \<Longrightarrow> labs ! i \<noteq> l \<Longrightarrow> j \<in> set (nb i) \<Longrightarrow> j < ?n \<Longrightarrow> fg ! j
              \<Longrightarrow> labs ! j = labs ! i"
    using D0(3) by blast
  have d: "\<And>i j. i < ?n \<Longrightarrow> labs ! i = l \<Longrightarrow> j \<in> set (nb i) \<Longrightarrow> j < ?n \<Longrightarrow> fg ! j
              \<Longrightarrow> labs ! j = l \<or> j \<in> set (w # ws)"
    using D0(4) by blast
  have e: "\<And>i. i < ?n \<Longrightarrow> labs ! i = l \<Longrightarrow> (s, i) \<in> (conn nb fg)\<^sup>*"
    using D0(5) by blast
  have f: "\<And>v. v \<in> set (w # ws) \<Longrightarrow> v < ?n \<Longrightarrow> fg ! v \<Longrightarrow> (s, v) \<in> (conn nb fg)\<^sup>*"
    using D0(6) by blast
  have D: "\<forall>i<?n. labs ! i = l \<longrightarrow>
          (\<forall>j\<in>set (nb i). j < ?n \<longrightarrow> fg ! j \<longrightarrow> labs ! j = l \<or> j \<in> set ws)"
  proof (intro allI impI ballI)
    fix i j assume h: "i < ?n" "labs ! i = l" "j \<in> set (nb i)" "j < ?n" "fg ! j"
    from d[OF h] have dj: "labs ! j = l \<or> j \<in> set (w # ws)" .
    show "labs ! j = l \<or> j \<in> set ws"
    proof (cases "j = w \<and> labs ! j \<noteq> l")
      case False
      with dj show ?thesis by auto
    next
      case True
      with g h len l have w0: "labs ! w \<noteq> 0" by auto
      from sym h have "i \<in> set (nb j)" unfolding nb_sym_def using h by blast
      moreover have "fg ! i" using b[OF h(1)] h(2) l by simp
      ultimately have "labs ! i = labs ! j"
        using c[of j i] True w0 h by auto
      with True h show ?thesis by simp
    qed
  qed
  have F: "\<forall>v\<in>set ws. v < ?n \<longrightarrow> fg ! v \<longrightarrow> (s, v) \<in> (conn nb fg)\<^sup>*"
    using f by simp
  show ?thesis by (rule flood_invI[OF len D0(2) D0(3) D D0(5) F])
qed

lemma flood_inv_final:
  "flood_inv nb fg l s ws labs \<Longrightarrow> l \<noteq> 0 \<Longrightarrow> nb_sym (length fg) nb
     \<Longrightarrow> flood_inv nb fg l s [] (flood nb fg l ws labs)"
proof (induction nb fg l ws labs rule: flood.induct)
  case (1 nb fg l labs)
  then show ?case by simp
next
  case (2 nb fg l w ws labs)
  show ?case
  proof (cases "w < length labs \<and> w < length fg \<and> fg ! w \<and> labs ! w = 0 \<and> l \<noteq> 0")
    case True
    then have "flood_inv nb fg l s (nb w @ ws) (labs[w := l])"
      using flood_inv_label[OF "2.prems"(1)] by blast
    from "2.IH"(1)[OF True this "2.prems"(2,3)] show ?thesis by (simp only: flood_Cons_label[OF True])
  next
    case False
    from flood_inv_skip[OF "2.prems"(1) False "2.prems"(2,3)]
    have "flood_inv nb fg l s ws labs" .
    from "2.IH"(2)[OF False this "2.prems"(2,3)] show ?thesis by (simp only: flood_Cons_skip[OF False])
  qed
qed

lemma flood_length: "length (flood nb fg l ws labs) = length labs"
  by (induction nb fg l ws labs rule: flood.induct) auto

lemma flood_keep: "labs ! i \<noteq> 0 \<Longrightarrow> flood nb fg l ws labs ! i = labs ! i"
proof (induction nb fg l ws labs rule: flood.induct)
  case (1 nb fg l labs)
  then show ?case by simp
next
  case (2 nb fg l w ws labs)
  show ?case
  proof (cases "w < length labs \<and> w < length fg \<and> fg ! w \<and> labs ! w = 0 \<and> l \<noteq> 0")
    case True
    with "2.prems" have "i \<noteq> w" by auto
    with "2.prems" have "labs[w := l] ! i \<noteq> 0" by simp
    from "2.IH"(1)[OF True this] \<open>i \<noteq> w\<close> show ?thesis by (simp add: flood_Cons_label[OF True] del: flood.simps)
  next
    case False
    from "2.IH"(2)[OF False "2.prems"] show ?thesis by (simp only: flood_Cons_skip[OF False])
  qed
qed

lemma flood_new: "i < length labs \<Longrightarrow> flood nb fg l ws labs ! i = labs ! i \<or> flood nb fg l ws labs ! i = l"
proof (induction nb fg l ws labs rule: flood.induct)
  case (1 nb fg l labs)
  then show ?case by simp
next
  case (2 nb fg l w ws labs)
  show ?case
  proof (cases "w < length labs \<and> w < length fg \<and> fg ! w \<and> labs ! w = 0 \<and> l \<noteq> 0")
    case True
    from "2.IH"(1)[OF True] "2.prems" True show ?thesis
      by (cases "i = w") (auto simp: nth_list_update flood_Cons_label[OF True] simp del: flood.simps)
  next
    case False
    from "2.IH"(2)[OF False "2.prems"] show ?thesis by (simp only: flood_Cons_skip[OF False])
  qed
qed

lemma flood_start:
  assumes "w < length labs" "w < length fg" "fg ! w" "labs ! w = 0" "l \<noteq> 0"
  shows "flood nb fg l (w # ws) labs ! w = l"
proof -
  have "flood nb fg l (w # ws) labs = flood nb fg l (nb w @ ws) (labs[w := l])"
    using assms by (intro flood_Cons_label) simp
  moreover have "flood nb fg l (nb w @ ws) (labs[w := l]) ! w = labs[w := l] ! w"
    using assms by (intro flood_keep) simp
  ultimately show ?thesis using assms by simp
qed

section \<open>The scan keeps its invariant\<close>

lemma scan_invI:
  "length labs = length fg \<Longrightarrow>
   \<forall>i<length fg. labs ! i \<noteq> 0 \<longrightarrow> fg ! i \<Longrightarrow>
   \<forall>i<length fg. labs ! i \<noteq> 0 \<longrightarrow>
          (\<forall>j\<in>set (nb i). j < length fg \<longrightarrow> fg ! j \<longrightarrow> labs ! j = labs ! i) \<Longrightarrow>
   \<forall>i<length fg. labs ! i \<le> k \<Longrightarrow>
   \<forall>i<length fg. i < pos \<longrightarrow> fg ! i \<longrightarrow> labs ! i \<noteq> 0 \<Longrightarrow>
   \<forall>l. 0 < l \<longrightarrow> l \<le> k \<longrightarrow>
          (\<exists>r<length fg. r < pos \<and> labs ! r = l \<and>
              (\<forall>i<length fg. labs ! i = l \<longrightarrow> (r, i) \<in> (conn nb fg)\<^sup>*) \<and>
              (\<forall>i<length fg. l \<le> labs ! i \<longrightarrow> r \<le> i)) \<Longrightarrow>
   scan_inv nb fg pos labs k"
  unfolding scan_inv_def by (intro conjI)

lemma scan_invD:
  assumes "scan_inv nb fg pos labs k"
  shows "length labs = length fg"
    and "\<forall>i<length fg. labs ! i \<noteq> 0 \<longrightarrow> fg ! i"
    and "\<forall>i<length fg. labs ! i \<noteq> 0 \<longrightarrow>
          (\<forall>j\<in>set (nb i). j < length fg \<longrightarrow> fg ! j \<longrightarrow> labs ! j = labs ! i)"
    and "\<forall>i<length fg. labs ! i \<le> k"
    and "\<forall>i<length fg. i < pos \<longrightarrow> fg ! i \<longrightarrow> labs ! i \<noteq> 0"
    and "\<forall>l. 0 < l \<longrightarrow> l \<le> k \<longrightarrow>
          (\<exists>r<length fg. r < pos \<and> labs ! r = l \<and>
              (\<forall>i<length fg. labs ! i = l \<longrightarrow> (r, i) \<in> (conn nb fg)\<^sup>*) \<and>
              (\<forall>i<length fg. l \<le> labs ! i \<longrightarrow> r \<le> i))"
  using assms unfolding scan_inv_def
  apply -
       apply (elim conjE, assumption)+
  done

lemma scan_inv_init: "scan_inv nb fg 0 (replicate (length fg) 0) 0"
  by (rule scan_invI) simp_all

lemma scan_inv_skip:
  assumes inv: "scan_inv nb fg pos labs k"
    and g: "\<not> (fg ! pos \<and> labs ! pos = 0)"
  shows "scan_inv nb fg (Suc pos) labs k"
proof -
  note D = scan_invD[OF inv]
  have H: "\<forall>i<length fg. i < Suc pos \<longrightarrow> fg ! i \<longrightarrow> labs ! i \<noteq> 0"
  proof (intro allI impI)
    fix i assume h: "i < length fg" "i < Suc pos" "fg ! i"
    show "labs ! i \<noteq> 0"
    proof (cases "i = pos")
      case True
      with g h show ?thesis by simp
    next
      case False
      with h have "i < pos" by simp
      with D(5) h show ?thesis by simp
    qed
  qed
  have R: "\<forall>l. 0 < l \<longrightarrow> l \<le> k \<longrightarrow>
          (\<exists>r<length fg. r < Suc pos \<and> labs ! r = l \<and>
              (\<forall>i<length fg. labs ! i = l \<longrightarrow> (r, i) \<in> (conn nb fg)\<^sup>*) \<and>
              (\<forall>i<length fg. l \<le> labs ! i \<longrightarrow> r \<le> i))"
  proof (intro allI impI)
    fix l :: nat assume l: "0 < l" "l \<le> k"
    with D(6) obtain r where r: "r < length fg" "r < pos" "labs ! r = l"
        "\<forall>i<length fg. labs ! i = l \<longrightarrow> (r, i) \<in> (conn nb fg)\<^sup>*"
        "\<forall>i<length fg. l \<le> labs ! i \<longrightarrow> r \<le> i"
      by blast
    from r(2) have "r < Suc pos" by simp
    with r show "\<exists>r<length fg. r < Suc pos \<and> labs ! r = l \<and>
              (\<forall>i<length fg. labs ! i = l \<longrightarrow> (r, i) \<in> (conn nb fg)\<^sup>*) \<and>
              (\<forall>i<length fg. l \<le> labs ! i \<longrightarrow> r \<le> i)"
      by (intro exI[of _ r] conjI)
  qed
  show ?thesis by (rule scan_invI[OF D(1) D(2) D(3) D(4) H R])
qed

lemma scan_inv_label:
  assumes inv: "scan_inv nb fg pos labs k"
    and g: "pos < length fg" "fg ! pos" "labs ! pos = 0"
    and sym: "nb_sym (length fg) nb"
  shows "scan_inv nb fg (Suc pos) (flood nb fg (Suc k) [pos] labs) (Suc k)"
proof -
  let ?n = "length fg" and ?l = "Suc k"
  let ?labs = "flood nb fg ?l [pos] labs"
  note D = scan_invD[OF inv]
  have le: "\<And>i. i < ?n \<Longrightarrow> labs ! i \<noteq> ?l"
  proof -
    fix i assume "i < ?n"
    with D(4) have "labs ! i \<le> k" by simp
    then show "labs ! i \<noteq> ?l" by simp
  qed
  have I3: "\<forall>i<?n. labs ! i \<noteq> 0 \<longrightarrow> labs ! i \<noteq> ?l \<longrightarrow>
          (\<forall>j\<in>set (nb i). j < ?n \<longrightarrow> fg ! j \<longrightarrow> labs ! j = labs ! i)"
    using D(3) by blast
  have I4: "\<forall>i<?n. labs ! i = ?l \<longrightarrow>
          (\<forall>j\<in>set (nb i). j < ?n \<longrightarrow> fg ! j \<longrightarrow> labs ! j = ?l \<or> j \<in> set [pos])"
    using le by blast
  have I5: "\<forall>i<?n. labs ! i = ?l \<longrightarrow> (pos, i) \<in> (conn nb fg)\<^sup>*"
    using le by blast
  have I6: "\<forall>w\<in>set [pos]. w < ?n \<longrightarrow> fg ! w \<longrightarrow> (pos, w) \<in> (conn nb fg)\<^sup>*"
    by simp
  have "flood_inv nb fg ?l pos [pos] labs"
    by (rule flood_invI[OF D(1) D(2) I3 I4 I5 I6])
  then have "flood_inv nb fg ?l pos [] ?labs"
    by (rule flood_inv_final) (simp_all add: sym)
  note F = flood_invD[OF this]
  have keep: "\<And>i. labs ! i \<noteq> 0 \<Longrightarrow> ?labs ! i = labs ! i"
    by (rule flood_keep)
  have new: "\<And>i. i < ?n \<Longrightarrow> ?labs ! i = labs ! i \<or> ?labs ! i = ?l"
    using flood_new[of _ labs nb fg ?l "[pos]"] D(1) by simp
  have start: "?labs ! pos = ?l"
    using g D(1) by (intro flood_start) simp_all
  have fresh: "\<And>i. i < ?n \<Longrightarrow> ?labs ! i \<noteq> labs ! i \<Longrightarrow> pos \<le> i"
  proof (rule ccontr)
    fix i assume h: "i < ?n" "?labs ! i \<noteq> labs ! i" "\<not> pos \<le> i"
    from h keep[of i] have z: "labs ! i = 0" by auto
    with h have "?labs ! i \<noteq> 0" by simp
    with F(2) h have "fg ! i" by simp
    with D(5) h have "labs ! i \<noteq> 0" by simp
    with z show False by simp
  qed
  have C: "\<forall>i<?n. ?labs ! i \<noteq> 0 \<longrightarrow>
          (\<forall>j\<in>set (nb i). j < ?n \<longrightarrow> fg ! j \<longrightarrow> ?labs ! j = ?labs ! i)"
  proof (intro allI impI ballI)
    fix i j assume h: "i < ?n" "?labs ! i \<noteq> 0" "j \<in> set (nb i)" "j < ?n" "fg ! j"
    show "?labs ! j = ?labs ! i"
    proof (cases "?labs ! i = ?l")
      case True
      with F(4) h have "?labs ! j = ?l \<or> j \<in> set []" by blast
      with True show ?thesis by simp
    next
      case False
      with F(3) h show ?thesis by blast
    qed
  qed
  have G: "\<forall>i<?n. ?labs ! i \<le> ?l"
  proof (intro allI impI)
    fix i assume h: "i < ?n"
    from D(4) h have "labs ! i \<le> k" by simp
    with new[OF h] show "?labs ! i \<le> ?l" by auto
  qed
  have H: "\<forall>i<?n. i < Suc pos \<longrightarrow> fg ! i \<longrightarrow> ?labs ! i \<noteq> 0"
  proof (intro allI impI)
    fix i assume h: "i < ?n" "i < Suc pos" "fg ! i"
    show "?labs ! i \<noteq> 0"
    proof (cases "i = pos")
      case True
      with start show ?thesis by simp
    next
      case False
      with h have "i < pos" by simp
      with D(5) h have "labs ! i \<noteq> 0" by simp
      with keep[of i] show ?thesis by simp
    qed
  qed
  have R: "\<forall>l. 0 < l \<longrightarrow> l \<le> ?l \<longrightarrow>
          (\<exists>r<?n. r < Suc pos \<and> ?labs ! r = l \<and>
              (\<forall>i<?n. ?labs ! i = l \<longrightarrow> (r, i) \<in> (conn nb fg)\<^sup>*) \<and>
              (\<forall>i<?n. l \<le> ?labs ! i \<longrightarrow> r \<le> i))"
  proof (intro allI impI)
    fix l :: nat assume l: "0 < l" "l \<le> ?l"
    show "\<exists>r<?n. r < Suc pos \<and> ?labs ! r = l \<and>
              (\<forall>i<?n. ?labs ! i = l \<longrightarrow> (r, i) \<in> (conn nb fg)\<^sup>*) \<and>
              (\<forall>i<?n. l \<le> ?labs ! i \<longrightarrow> r \<le> i)"
    proof (cases "l = ?l")
      case True
      have 1: "\<forall>i<?n. ?labs ! i = l \<longrightarrow> (pos, i) \<in> (conn nb fg)\<^sup>*"
        using F(5) True by simp
      have 2: "\<forall>i<?n. l \<le> ?labs ! i \<longrightarrow> pos \<le> i"
      proof (intro allI impI)
        fix i assume h: "i < ?n" "l \<le> ?labs ! i"
        from D(4) h have "labs ! i \<le> k" by simp
        with h True have "?labs ! i \<noteq> labs ! i" by simp
        with fresh h show "pos \<le> i" by simp
      qed
      have 3: "pos < Suc pos" by simp
      have 4: "?labs ! pos = l" using start True by simp
      show ?thesis
        by (intro exI[of _ pos] conjI g(1) 3 4 1 2)
    next
      case False
      with l have lk: "l \<le> k" by simp
      with D(6) l obtain r where r: "r < ?n" "r < pos" "labs ! r = l"
        "\<forall>i<?n. labs ! i = l \<longrightarrow> (r, i) \<in> (conn nb fg)\<^sup>*"
        "\<forall>i<?n. l \<le> labs ! i \<longrightarrow> r \<le> i"
        by blast
      have 1: "\<forall>i<?n. ?labs ! i = l \<longrightarrow> (r, i) \<in> (conn nb fg)\<^sup>*"
      proof (intro allI impI)
        fix i assume h: "i < ?n" "?labs ! i = l"
        with new[OF h(1)] False have "labs ! i = l" by simp
        with r(4) h show "(r, i) \<in> (conn nb fg)\<^sup>*" by simp
      qed
      have 2: "\<forall>i<?n. l \<le> ?labs ! i \<longrightarrow> r \<le> i"
      proof (intro allI impI)
        fix i assume h: "i < ?n" "l \<le> ?labs ! i"
        show "r \<le> i"
        proof (cases "?labs ! i = labs ! i")
          case True
          with r(5) h show ?thesis by simp
        next
          case False
          with fresh[OF h(1)] have "pos \<le> i" by simp
          with r(2) show ?thesis by simp
        qed
      qed
      have 3: "r < Suc pos" using r(2) by simp
      have 4: "?labs ! r = l" using keep[of r] r(3) l by simp
      show ?thesis
        by (intro exI[of _ r] conjI r(1) 3 4 1 2)
    qed
  qed
  have A: "length ?labs = ?n" using D(1) by (simp add: flood_length)
  show ?thesis by (rule scan_invI[OF A F(2) C G H R])
qed

lemma label_scan_inv:
  "scan_inv nb fg pos labs k \<Longrightarrow> pos \<le> length fg \<Longrightarrow> nb_sym (length fg) nb \<Longrightarrow>
   label_scan nb fg [pos..<length fg] (labs, k) = (labs', k') \<Longrightarrow>
   scan_inv nb fg (length fg) labs' k'"
proof (induction "length fg - pos" arbitrary: pos labs k)
  case 0
  then show ?case by simp
next
  case (Suc m)
  then have lt: "pos < length fg" by simp
  then have upt: "[pos..<length fg] = pos # [Suc pos..<length fg]"
    by (simp add: upt_conv_Cons)
  have m: "m = length fg - Suc pos" using Suc.hyps(2) by simp
  show ?case
  proof (cases "fg ! pos \<and> labs ! pos = 0")
    case True
    then have inv': "scan_inv nb fg (Suc pos) (flood nb fg (Suc k) [pos] labs) (Suc k)"
      using scan_inv_label[OF Suc.prems(1) lt _ _ Suc.prems(3)] by simp
    from Suc.prems(4) True
    have "label_scan nb fg [Suc pos..<length fg] (flood nb fg (Suc k) [pos] labs, Suc k) = (labs', k')"
      by (simp add: upt del: upt.simps flood.simps)
    from Suc.hyps(1)[OF m inv' _ Suc.prems(3) this] lt show ?thesis by simp
  next
    case False
    then have inv': "scan_inv nb fg (Suc pos) labs k"
      using scan_inv_skip[OF Suc.prems(1)] by simp
    from Suc.prems(4) False
    have "label_scan nb fg [Suc pos..<length fg] (labs, k) = (labs', k')"
      by (simp add: upt del: upt.simps flood.simps)
    from Suc.hyps(1)[OF m inv' _ Suc.prems(3) this] lt show ?thesis by simp
  qed
qed

lemma label_with_inv:
  "nb_sym (length fg) nb \<Longrightarrow> label_with nb fg = (labs, k) \<Longrightarrow> scan_inv nb fg (length fg) labs k"
  unfolding label_with_def
  using label_scan_inv[OF scan_inv_init, of fg nb labs k] by simp

section \<open>Flat positions and multi-indices\<close>

lemma unravel_in_bounds: "i < prod_list sh \<Longrightarrow> in_bounds (unravel_index i sh) sh"
proof (induction sh arbitrary: i)
  case Nil
  then show ?case by (simp add: in_bounds_def)
next
  case (Cons d ds)
  let ?p = "prod_list ds"
  from Cons.prems have lt: "i < d * ?p" by simp
  then have p: "0 < ?p" by (cases ?p) simp_all
  from lt have "i div ?p < d" by (simp add: less_mult_imp_div_less)
  moreover from p have "i mod ?p < ?p" by simp
  then have "in_bounds (unravel_index (i mod ?p) ds) ds" by (rule Cons.IH)
  ultimately show ?case by (simp add: in_bounds_def)
qed

lemma ravel_unravel: "i < prod_list sh \<Longrightarrow> ravel_multi_index (unravel_index i sh) sh = i"
proof (induction sh arbitrary: i)
  case Nil
  then show ?case by simp
next
  case (Cons d ds)
  let ?p = "prod_list ds"
  from Cons.prems have lt: "i < d * ?p" by simp
  then have p: "0 < ?p" by (cases ?p) simp_all
  then have "i mod ?p < ?p" by simp
  then have "ravel_multi_index (unravel_index (i mod ?p) ds) ds = i mod ?p" by (rule Cons.IH)
  then show ?case by simp
qed

lemma ravel_less: "in_bounds a sh \<Longrightarrow> ravel_multi_index a sh < prod_list sh"
  unfolding in_bounds_def
proof (induction a sh rule: list_all2_induct)
  case Nil
  then show ?case by simp
next
  case (Cons c cs d ds)
  let ?p = "prod_list ds" and ?r = "ravel_multi_index cs ds"
  from Cons have "c * ?p + ?r < c * ?p + ?p" by simp
  also have "\<dots> = Suc c * ?p" by simp
  also from Cons have "\<dots> \<le> d * ?p" by (intro mult_le_mono1) simp
  finally show ?case by simp
qed

lemma unravel_ravel: "in_bounds a sh \<Longrightarrow> unravel_index (ravel_multi_index a sh) sh = a"
  unfolding in_bounds_def
proof (induction a sh rule: list_all2_induct)
  case Nil
  then show ?case by simp
next
  case (Cons c cs d ds)
  then have "ravel_multi_index cs ds < prod_list ds"
    using ravel_less[of cs ds] by (simp add: in_bounds_def)
  with Cons show ?case by simp
qed

lemma l1_dist_sym: "l1_dist a b = l1_dist b a"
  by (induction a b rule: l1_dist.induct) auto

lemma l1_dist_zero: "length a = length b \<Longrightarrow> l1_dist a b = 0 \<longleftrightarrow> a = b"
  by (induction a b rule: list_induct2) auto

lemma l1_dist_refl: "l1_dist a a = 0"
  by (induction a) auto

lemma face_adjacent_sym: "face_adjacent a b \<Longrightarrow> face_adjacent b a"
  by (simp add: face_adjacent_def l1_dist_sym)

lemma in_bounds_Cons: "in_bounds (c # cs) (d # ds) \<longleftrightarrow> c < d \<and> in_bounds cs ds"
  by (simp add: in_bounds_def)

lemma in_bounds_length: "in_bounds a sh \<Longrightarrow> length a = length sh"
  by (simp add: in_bounds_def list_all2_lengthD)

lemma face_steps_iff:
  "in_bounds a sh \<Longrightarrow> b \<in> set (face_steps a sh) \<longleftrightarrow> in_bounds b sh \<and> face_adjacent a b"
proof (induction a sh arbitrary: b rule: face_steps.induct)
  case (1 c cs d ds)
  from "1.prems" have cd: "c < d" and cs: "in_bounds cs ds" by (simp_all add: in_bounds_Cons)
  note IH = "1.IH"[OF cs]
  show ?case
  proof (cases b)
    case Nil
    then show ?thesis by (auto simp: in_bounds_def face_adjacent_def)
  next
    case (Cons x xs)
    have len: "in_bounds xs ds \<Longrightarrow> length cs = length xs"
      using cs by (simp add: in_bounds_length)
    show ?thesis
    proof
      assume "b \<in> set (face_steps (c # cs) (d # ds))"
      then consider "0 < c" "b = (c - 1) # cs" | "c + 1 < d" "b = (c + 1) # cs"
        | b' where "b = c # b'" "b' \<in> set (face_steps cs ds)"
        by (auto split: if_splits)
      then show "in_bounds b (d # ds) \<and> face_adjacent (c # cs) b"
      proof cases
        case 1
        then show ?thesis using cd cs by (simp add: in_bounds_Cons face_adjacent_def l1_dist_refl)
      next
        case 2
        then show ?thesis using cd cs by (simp add: in_bounds_Cons face_adjacent_def l1_dist_refl)
      next
        case 3
        with IH[of b'] cd show ?thesis by (simp add: in_bounds_Cons face_adjacent_def)
      qed
    next
      assume h: "in_bounds b (d # ds) \<and> face_adjacent (c # cs) b"
      with Cons have x: "x < d" and xs: "in_bounds xs ds" and l: "length cs = length xs"
        and dist: "(if c \<le> x then x - c else c - x) + l1_dist cs xs = 1"
        by (simp_all add: in_bounds_Cons face_adjacent_def)
      show "b \<in> set (face_steps (c # cs) (d # ds))"
      proof (cases "x = c")
        case True
        with dist have "l1_dist cs xs = 1" by simp
        with l xs IH[of xs] have "xs \<in> set (face_steps cs ds)" by (simp add: face_adjacent_def)
        with True Cons show ?thesis by simp
      next
        case False
        with dist have z: "l1_dist cs xs = 0" and one: "(if c \<le> x then x - c else c - x) = 1"
          by (auto split: if_splits)
        from z l have "cs = xs" by (simp add: l1_dist_zero)
        with one x Cons False show ?thesis by (auto split: if_splits)
      qed
    qed
  qed
qed (auto simp: in_bounds_def face_adjacent_def)

lemma face_neighbours_iff:
  assumes i: "i < prod_list sh" and j: "j < prod_list sh"
  shows "j \<in> set (face_neighbours sh i) \<longleftrightarrow>
         face_adjacent (unravel_index i sh) (unravel_index j sh)"
proof -
  note bi = unravel_in_bounds[OF i] and bj = unravel_in_bounds[OF j]
  show ?thesis
  proof
    assume "j \<in> set (face_neighbours sh i)"
    then obtain b where b: "b \<in> set (face_steps (unravel_index i sh) sh)" "j = ravel_multi_index b sh"
      by (auto simp: face_neighbours_def)
    from b(1) face_steps_iff[OF bi] have bb: "in_bounds b sh" "face_adjacent (unravel_index i sh) b"
      by simp_all
    from unravel_ravel[OF bb(1)] b(2) have "unravel_index j sh = b" by simp
    with bb show "face_adjacent (unravel_index i sh) (unravel_index j sh)" by simp
  next
    assume "face_adjacent (unravel_index i sh) (unravel_index j sh)"
    with face_steps_iff[OF bi] bj have "unravel_index j sh \<in> set (face_steps (unravel_index i sh) sh)"
      by simp
    then have "ravel_multi_index (unravel_index j sh) sh \<in> set (face_neighbours sh i)"
      unfolding face_neighbours_def by simp
    with ravel_unravel[OF j] show "j \<in> set (face_neighbours sh i)" by simp
  qed
qed

lemma face_neighbours_sym: "nb_sym (prod_list sh) (face_neighbours sh)"
  unfolding nb_sym_def
  using face_neighbours_iff face_adjacent_sym by blast

section \<open>What the labelling computes\<close>

lemma conn_face_rel:
  assumes "wf_ndarray v"
  shows "conn (face_neighbours (shape v)) (map (\<lambda>x. x \<noteq> 0) (flat v)) = face_rel v"
proof -
  have n: "length (flat v) = prod_list (shape v)" using assms by (simp add: wf_ndarray_def)
  show ?thesis
    unfolding conn_def face_rel_def foreground_def
    using face_neighbours_iff[of _ "shape v"] n by auto
qed

lemma conn_sym: "nb_sym (length fg) nb \<Longrightarrow> sym (conn nb fg)"
  unfolding sym_def conn_def nb_sym_def by blast

lemma conn_rtrancl_sym:
  assumes "nb_sym (length fg) nb" "(i, j) \<in> (conn nb fg)\<^sup>*"
  shows "(j, i) \<in> (conn nb fg)\<^sup>*"
proof -
  have "sym ((conn nb fg)\<^sup>*)" using assms(1) by (intro sym_rtrancl conn_sym)
  then show ?thesis using assms(2) by (rule symD)
qed

lemma scan_labelled_iff:
  assumes "scan_inv nb fg (length fg) labs k" "i < length fg"
  shows "labs ! i \<noteq> 0 \<longleftrightarrow> fg ! i"
  using scan_invD(2)[OF assms(1)] scan_invD(5)[OF assms(1)] assms(2) by blast

lemma scan_conn_same:
  assumes inv: "scan_inv nb fg (length fg) labs k"
    and p: "(i, j) \<in> (conn nb fg)\<^sup>*"
  shows "labs ! j = labs ! i"
  using p
proof (induction rule: rtrancl_induct)
  case base
  show ?case by simp
next
  case (step y z)
  from step.hyps(2) have yz: "y < length fg" "z < length fg" "fg ! y" "fg ! z" "z \<in> set (nb y)"
    by (simp_all add: conn_def)
  from scan_labelled_iff[OF inv yz(1)] yz(3) have "labs ! y \<noteq> 0" by simp
  with scan_invD(3)[OF inv] yz have "labs ! z = labs ! y" by blast
  with step.IH show ?case by simp
qed

lemma scan_root:
  assumes inv: "scan_inv nb fg (length fg) labs k" and l: "0 < l" "l \<le> k"
  obtains r where "r < length fg" "labs ! r = l" "fg ! r"
    "\<And>i. i < length fg \<Longrightarrow> labs ! i = l \<Longrightarrow> (r, i) \<in> (conn nb fg)\<^sup>*"
    "\<And>i. i < length fg \<Longrightarrow> l \<le> labs ! i \<Longrightarrow> r \<le> i"
proof -
  from scan_invD(6)[OF inv] l obtain r where r: "r < length fg" "labs ! r = l"
      "\<forall>i<length fg. labs ! i = l \<longrightarrow> (r, i) \<in> (conn nb fg)\<^sup>*"
      "\<forall>i<length fg. l \<le> labs ! i \<longrightarrow> r \<le> i"
    by blast
  from scan_labelled_iff[OF inv r(1)] r(2) l have "fg ! r" by simp
  with r that show thesis by blast
qed

lemma scan_same_conn:
  assumes inv: "scan_inv nb fg (length fg) labs k" and sym: "nb_sym (length fg) nb"
    and ij: "i < length fg" "j < length fg" "labs ! i = labs ! j" "labs ! i \<noteq> 0"
  shows "(i, j) \<in> (conn nb fg)\<^sup>*"
proof -
  from scan_invD(4)[OF inv] ij have "0 < labs ! i" "labs ! i \<le> k" by simp_all
  then show ?thesis
  proof (rule scan_root[OF inv])
    fix r assume r: "\<And>x. x < length fg \<Longrightarrow> labs ! x = labs ! i \<Longrightarrow> (r, x) \<in> (conn nb fg)\<^sup>*"
    from r[of i] ij have "(r, i) \<in> (conn nb fg)\<^sup>*" by simp
    then have "(i, r) \<in> (conn nb fg)\<^sup>*" by (rule conn_rtrancl_sym[OF sym])
    moreover from r[of j] ij have "(r, j) \<in> (conn nb fg)\<^sup>*" by simp
    ultimately show ?thesis by (rule rtrancl_trans)
  qed
qed

lemma scan_none:
  assumes inv: "scan_inv nb fg (length fg) labs k"
  shows "k = 0 \<longleftrightarrow> (\<forall>i<length fg. \<not> fg ! i)"
proof
  assume "k = 0"
  with scan_invD(4)[OF inv] have "\<forall>i<length fg. labs ! i = 0" by simp
  with scan_invD(5)[OF inv] show "\<forall>i<length fg. \<not> fg ! i" by blast
next
  assume none: "\<forall>i<length fg. \<not> fg ! i"
  show "k = 0"
  proof (rule ccontr)
    assume "k \<noteq> 0"
    then have k: "0 < k" "k \<le> k" by simp_all
    show False
    proof (rule scan_root[OF inv k])
      fix r assume "r < length fg" "fg ! r"
      with none show False by simp
    qed
  qed
qed

section \<open>The size table and its first maximum\<close>

lemma argmax_less: "xs \<noteq> [] \<Longrightarrow> argmax xs < length xs"
proof -
  let ?P = "\<lambda>x. x \<noteq> Max (set xs)"
  assume "xs \<noteq> []"
  then have "Max (set xs) \<in> set xs" by (intro Max_in) simp_all
  then have ne: "takeWhile ?P xs \<noteq> xs" by (simp add: takeWhile_eq_all_conv)
  have "length (takeWhile ?P xs) + length (dropWhile ?P xs) = length xs"
    using takeWhile_dropWhile_id[of ?P xs] length_append[of "takeWhile ?P xs" "dropWhile ?P xs"]
    by simp
  moreover have "dropWhile ?P xs \<noteq> []"
    using takeWhile_dropWhile_id[of ?P xs] ne by auto
  then have "0 < length (dropWhile ?P xs)" by simp
  ultimately show ?thesis unfolding argmax_def by linarith
qed

lemma argmax_max: "xs \<noteq> [] \<Longrightarrow> xs ! argmax xs = Max (set xs)"
  using argmax_less[of xs] nth_length_takeWhile[of "\<lambda>x. x \<noteq> Max (set xs)" xs]
  by (simp add: argmax_def)

lemma argmax_first: "i < argmax xs \<Longrightarrow> xs ! i < Max (set xs)"
proof -
  assume i: "i < argmax xs"
  let ?P = "\<lambda>x. x \<noteq> Max (set xs)"
  from i have il: "i < length xs" unfolding argmax_def
    using length_takeWhile_le[of ?P xs] by simp
  from i have "takeWhile ?P xs ! i \<in> set (takeWhile ?P xs)" unfolding argmax_def by simp
  then have "?P (takeWhile ?P xs ! i)" by (rule set_takeWhileD[THEN conjunct2])
  with i have "xs ! i \<noteq> Max (set xs)" by (simp add: argmax_def takeWhile_nth)
  moreover have "xs ! i \<le> Max (set xs)" using il by (intro Max_ge) simp_all
  ultimately show ?thesis by simp
qed

lemma argmax_ge: "i < length xs \<Longrightarrow> xs ! i \<le> xs ! argmax xs"
proof -
  assume i: "i < length xs"
  then have "xs \<noteq> []" by auto
  then have "xs ! argmax xs = Max (set xs)" by (rule argmax_max)
  moreover have "xs ! i \<le> Max (set xs)" using i by (intro Max_ge) simp_all
  ultimately show ?thesis by simp
qed

lemma bincount_length: "xs \<noteq> [] \<Longrightarrow> length (bincount xs) = Suc (Max (set xs))"
  by (simp add: bincount_def)

lemma bincount_nth: "xs \<noteq> [] \<Longrightarrow> l \<le> Max (set xs) \<Longrightarrow> bincount xs ! l = count_list xs l"
  by (simp add: bincount_def del: upt.simps)

lemma count_list_card: "count_list xs x = card {i. i < length xs \<and> xs ! i = x}"
proof -
  have "count_list xs x = length (filter ((=) x) xs)" by (rule count_list_eq_length_filter)
  also have "\<dots> = card {i. i < length xs \<and> x = xs ! i}" by (rule length_filter_conv_card)
  also have "{i. i < length xs \<and> x = xs ! i} = {i. i < length xs \<and> xs ! i = x}" by auto
  finally show ?thesis .
qed

section \<open>The labels of a volume\<close>

lemma label_inv:
  assumes wf: "wf_ndarray v" and lab: "label v = (L, K)"
  shows "shape L = shape v"
    and "scan_inv (face_neighbours (shape v)) (map (\<lambda>x. x \<noteq> 0) (flat v))
           (length (map (\<lambda>x. x \<noteq> 0) (flat v))) (flat L) K"
proof -
  let ?fg = "map (\<lambda>x. x \<noteq> 0) (flat v)" and ?nb = "face_neighbours (shape v)"
  obtain labs k where lw: "label_with ?nb ?fg = (labs, k)" by (cases "label_with ?nb ?fg")
  with lab have L: "L = \<lparr>shape = shape v, flat = labs\<rparr>" and K: "K = k"
    by (simp_all add: label_def)
  from L show "shape L = shape v" by simp
  have "nb_sym (length ?fg) ?nb"
    using face_neighbours_sym[of "shape v"] wf by (simp add: wf_ndarray_def)
  from label_with_inv[OF this lw] L K
  show "scan_inv ?nb ?fg (length ?fg) (flat L) K" by simp
qed

lemma face_rel_foreground:
  "(c, i) \<in> (face_rel v)\<^sup>* \<Longrightarrow> foreground v c \<Longrightarrow> foreground v i"
  by (induction rule: rtrancl_induct) (simp_all add: face_rel_def)

lemma label_facts:
  assumes wf: "wf_ndarray v" and lab: "label v = (L, K)"
  shows "shape L = shape v"
    and "length (flat L) = length (flat v)"
    and "\<And>i. i < length (flat v) \<Longrightarrow> flat L ! i \<noteq> 0 \<longleftrightarrow> foreground v i"
    and "\<And>i. i < length (flat v) \<Longrightarrow> flat L ! i \<le> K"
    and "\<And>i j. (i, j) \<in> (face_rel v)\<^sup>* \<Longrightarrow> flat L ! j = flat L ! i"
    and "\<And>i j. i < length (flat v) \<Longrightarrow> j < length (flat v) \<Longrightarrow> flat L ! i = flat L ! j
            \<Longrightarrow> flat L ! i \<noteq> 0 \<Longrightarrow> (i, j) \<in> (face_rel v)\<^sup>*"
    and "\<And>l. 0 < l \<Longrightarrow> l \<le> K \<Longrightarrow>
            \<exists>r. foreground v r \<and> flat L ! r = l \<and> (\<forall>i<length (flat v). l \<le> flat L ! i \<longrightarrow> r \<le> i)"
    and "K = 0 \<longleftrightarrow> (\<forall>i. \<not> foreground v i)"
proof -
  let ?fg = "map (\<lambda>x. x \<noteq> 0) (flat v)" and ?nb = "face_neighbours (shape v)"
  note inv = label_inv(2)[OF wf lab]
  have rel: "conn ?nb ?fg = face_rel v" by (rule conn_face_rel[OF wf])
  have sym: "nb_sym (length ?fg) ?nb"
    using face_neighbours_sym[of "shape v"] wf by (simp add: wf_ndarray_def)
  have fg: "\<And>i. i < length (flat v) \<Longrightarrow> ?fg ! i \<longleftrightarrow> foreground v i"
    by (simp add: foreground_def)
  show "shape L = shape v" by (rule label_inv(1)[OF wf lab])
  show "length (flat L) = length (flat v)" using scan_invD(1)[OF inv] by simp
  show "flat L ! i \<noteq> 0 \<longleftrightarrow> foreground v i" if "i < length (flat v)" for i
    using scan_labelled_iff[OF inv, of i] that fg[OF that] by simp
  show "flat L ! i \<le> K" if "i < length (flat v)" for i
    using scan_invD(4)[OF inv] that by simp
  show "flat L ! j = flat L ! i" if "(i, j) \<in> (face_rel v)\<^sup>*" for i j
    using scan_conn_same[OF inv, of i j] that rel by simp
  show "(i, j) \<in> (face_rel v)\<^sup>*"
    if "i < length (flat v)" "j < length (flat v)" "flat L ! i = flat L ! j" "flat L ! i \<noteq> 0" for i j
    using scan_same_conn[OF inv sym, of i j] that rel by simp
  show "\<exists>r. foreground v r \<and> flat L ! r = l \<and> (\<forall>i<length (flat v). l \<le> flat L ! i \<longrightarrow> r \<le> i)"
    if l: "0 < l" "l \<le> K" for l
  proof (rule scan_root[OF inv l])
    fix r assume r: "r < length ?fg" "flat L ! r = l" "?fg ! r"
      "\<And>i. i < length ?fg \<Longrightarrow> l \<le> flat L ! i \<Longrightarrow> r \<le> i"
    from r(1,3) have "foreground v r" by (simp add: foreground_def)
    moreover from r(4) have "\<forall>i<length (flat v). l \<le> flat L ! i \<longrightarrow> r \<le> i" by simp
    ultimately show ?thesis using r(2) by blast
  qed
  show "K = 0 \<longleftrightarrow> (\<forall>i. \<not> foreground v i)"
    using scan_none[OF inv] by (auto simp: foreground_def)
qed

lemma label_count_facts:
  assumes wf: "wf_ndarray v" and lab: "label v = (L, K)" and K: "0 < K"
  defines "lc \<equiv> (bincount (flat L))[0 := 0]"
  shows "length lc = Suc K"
    and "lc ! 0 = 0"
    and "\<And>l. 0 < l \<Longrightarrow> l \<le> K \<Longrightarrow> lc ! l = count_list (flat L) l"
    and "\<And>l. 0 < l \<Longrightarrow> l \<le> K \<Longrightarrow> 0 < count_list (flat L) l"
proof -
  note F = label_facts[OF wf lab]
  have used: "l \<in> set (flat L)" if "0 < l" "l \<le> K" for l
  proof -
    from F(7)[OF that] obtain r where "foreground v r" "flat L ! r = l" by blast
    then show ?thesis using F(2) by (auto simp: foreground_def in_set_conv_nth)
  qed
  from used[of K] K have ne: "flat L \<noteq> []" by auto
  have "Max (set (flat L)) = K"
  proof (rule Max_eqI)
    show "finite (set (flat L))" by simp
    show "y \<le> K" if "y \<in> set (flat L)" for y
      using that F(4) F(2) by (auto simp: in_set_conv_nth)
    show "K \<in> set (flat L)" using used[of K] K by simp
  qed
  then have len: "length (bincount (flat L)) = Suc K" and
    nth: "\<And>l. l \<le> K \<Longrightarrow> bincount (flat L) ! l = count_list (flat L) l"
    using bincount_length[OF ne] bincount_nth[OF ne] by simp_all
  from len show "length lc = Suc K" by (simp add: lc_def)
  from len show "lc ! 0 = 0" by (simp add: lc_def)
  show "lc ! l = count_list (flat L) l" if "0 < l" "l \<le> K" for l
    using that nth[of l] by (simp add: lc_def)
  show "0 < count_list (flat L) l" if "0 < l" "l \<le> K" for l
    using used[OF that] count_list_0_iff[of "flat L" l] by (cases "count_list (flat L) l") simp_all
qed

lemma argmax_label_count:
  assumes wf: "wf_ndarray v" and lab: "label v = (L, K)" and K: "0 < K"
  defines "m \<equiv> argmax ((bincount (flat L))[0 := 0])"
  shows "0 < m" and "m \<le> K"
    and "\<And>l. 0 < l \<Longrightarrow> l \<le> K \<Longrightarrow> count_list (flat L) l \<le> count_list (flat L) m"
    and "\<And>l. 0 < l \<Longrightarrow> l < m \<Longrightarrow> count_list (flat L) l < count_list (flat L) m"
proof -
  let ?lc = "(bincount (flat L))[0 := 0]"
  note C = label_count_facts[OF wf lab K]
  from C(1) have ne: "?lc \<noteq> []" by auto
  from argmax_less[OF ne] C(1) show mK: "m \<le> K" by (simp add: m_def)
  have ge: "?lc ! l \<le> ?lc ! m" if "l \<le> K" for l
    using argmax_ge[of l ?lc] that C(1) by (simp add: m_def)
  from ge[of K] C(3)[of K] C(4)[of K] K have "0 < ?lc ! m" by simp
  with C(2) show m0: "0 < m" by (cases "m = 0") simp_all
  note cm = C(3)[OF m0 mK]
  show "count_list (flat L) l \<le> count_list (flat L) m" if "0 < l" "l \<le> K" for l
    using ge[of l] C(3)[OF that] cm that by simp
  show "count_list (flat L) l < count_list (flat L) m" if "0 < l" "l < m" for l
  proof -
    from that mK have lK: "l \<le> K" by simp
    from argmax_first[of l ?lc] that have "?lc ! l < Max (set ?lc)" by (simp add: m_def)
    also have "\<dots> = ?lc ! m" unfolding m_def by (rule argmax_max[OF ne, symmetric])
    finally show ?thesis using C(3)[OF that(1) lK] cm by simp
  qed
qed

lemma select_largest_single:
  assumes wf: "wf_ndarray v" and lab: "label v = (L, 1)"
  shows "select_largest L = astype_bool v"
proof -
  note F = label_facts[OF wf lab]
  note A = argmax_label_count[OF wf lab]
  let ?m = "argmax ((bincount (flat L))[0 := 0])"
  from A(1,2) have m: "?m = 1" by simp
  have "map (\<lambda>l. l = ?m) (flat L) = map (\<lambda>x. x \<noteq> 0) (flat v)"
  proof (rule nth_equalityI)
    show "length (map (\<lambda>l. l = ?m) (flat L)) = length (map (\<lambda>x. x \<noteq> 0) (flat v))"
      using F(2) by simp
    fix i assume "i < length (map (\<lambda>l. l = ?m) (flat L))"
    with F(2) have i: "i < length (flat v)" by simp
    from F(3)[OF i] F(4)[OF i] have "flat L ! i = 1 \<longleftrightarrow> flat v ! i \<noteq> 0"
      using i by (auto simp: foreground_def)
    with i F(2) m show "map (\<lambda>l. l = ?m) (flat L) ! i = map (\<lambda>x. x \<noteq> 0) (flat v) ! i"
      by simp
  qed
  with F(1) show ?thesis by (simp add: select_largest_def astype_bool_def)
qed

lemma lcc_general:
  assumes wf: "wf_ndarray v" and lab: "label v = (L, K)" and K: "0 < K"
  shows "largest_connected_component (Array v) = Inr (select_largest L)"
proof (cases "K = 1")
  case True
  with lab select_largest_single[OF wf, of L] show ?thesis by simp
next
  case False
  with lab K show ?thesis by simp
qed

lemma component_labels:
  assumes wf: "wf_ndarray v" and lab: "label v = (L, K)" and j: "foreground v j"
  shows "component v j = {i. i < length (flat L) \<and> flat L ! i = flat L ! j}"
proof -
  note F = label_facts[OF wf lab]
  from j have jn: "j < length (flat v)" by (simp add: foreground_def)
  show ?thesis
  proof (intro set_eqI iffI)
    fix i assume "i \<in> component v j"
    then have p: "(j, i) \<in> (face_rel v)\<^sup>*" by (simp add: component_def)
    from face_rel_foreground[OF p j] have "i < length (flat v)" by (simp add: foreground_def)
    with F(5)[OF p] F(2) show "i \<in> {i. i < length (flat L) \<and> flat L ! i = flat L ! j}" by simp
  next
    fix i assume "i \<in> {i. i < length (flat L) \<and> flat L ! i = flat L ! j}"
    then have i: "i < length (flat v)" "flat L ! j = flat L ! i" using F(2) by simp_all
    from F(3)[OF jn] j have "flat L ! j \<noteq> 0" by simp
    from F(6)[OF jn i(1) i(2) this] show "i \<in> component v j" by (simp add: component_def)
  qed
qed

lemma component_card:
  assumes wf: "wf_ndarray v" and lab: "label v = (L, K)" and j: "foreground v j"
  shows "card (component v j) = count_list (flat L) (flat L ! j)"
  by (simp add: component_labels[OF wf lab j] count_list_card)

text \<open>
  The result of \<open>largest_connected_component\<close> on a volume with a foreground cell: the
  component of a cell \<open>c\<close> that is first in its component, of maximal size, and before every
  cell of another component of the same size.
\<close>

lemma lcc_char:
  assumes wf: "wf_ndarray v" and ex: "foreground v j0"
  shows "\<exists>c. foreground v c \<and>
           largest_connected_component (Array v) =
             Inr \<lparr>shape = shape v, flat = map (\<lambda>i. (c, i) \<in> (face_rel v)\<^sup>*) [0..<length (flat v)]\<rparr> \<and>
           (\<forall>i. (c, i) \<in> (face_rel v)\<^sup>* \<longrightarrow> c \<le> i) \<and>
           (\<forall>j. foreground v j \<longrightarrow> card (component v j) \<le> card (component v c)) \<and>
           (\<forall>j. foreground v j \<longrightarrow> card (component v j) = card (component v c) \<longrightarrow>
                  (c, j) \<notin> (face_rel v)\<^sup>* \<longrightarrow> c < j)"
proof -
  obtain L K where lab: "label v = (L, K)" by (cases "label v")
  note F = label_facts[OF wf lab]
  from F(8) ex have K: "0 < K" by auto
  note A = argmax_label_count[OF wf lab K]
  let ?m = "argmax ((bincount (flat L))[0 := 0])"
  let ?n = "length (flat v)"
  from F(7)[OF A(1,2)] obtain c where c: "foreground v c" "flat L ! c = ?m"
    "\<forall>i<?n. ?m \<le> flat L ! i \<longrightarrow> c \<le> i" by blast
  from c(1) have cn: "c < ?n" by (simp add: foreground_def)
  have lab_of: "0 < flat L ! j \<and> flat L ! j \<le> K" if "foreground v j" for j
  proof -
    from that have jn: "j < ?n" by (simp add: foreground_def)
    from F(3)[OF jn] F(4)[OF jn] that show ?thesis by simp
  qed
  have mem: "(c, i) \<in> (face_rel v)\<^sup>* \<longleftrightarrow> flat L ! i = ?m" if i: "i < ?n" for i
  proof
    assume "(c, i) \<in> (face_rel v)\<^sup>*"
    from F(5)[OF this] c(2) show "flat L ! i = ?m" by simp
  next
    assume e: "flat L ! i = ?m"
    with c(2) A(1) have "flat L ! c = flat L ! i" "flat L ! c \<noteq> 0" by simp_all
    from F(6)[OF cn i this] show "(c, i) \<in> (face_rel v)\<^sup>*" .
  qed
  have "map (\<lambda>l. l = ?m) (flat L) = map (\<lambda>i. (c, i) \<in> (face_rel v)\<^sup>*) [0..<?n]"
  proof (rule nth_equalityI)
    show "length (map (\<lambda>l. l = ?m) (flat L)) = length (map (\<lambda>i. (c, i) \<in> (face_rel v)\<^sup>*) [0..<?n])"
      using F(2) by simp
    fix i assume "i < length (map (\<lambda>l. l = ?m) (flat L))"
    with F(2) have i: "i < ?n" by simp
    with mem[OF i] F(2) show "map (\<lambda>l. l = ?m) (flat L) ! i = map (\<lambda>i. (c, i) \<in> (face_rel v)\<^sup>*) [0..<?n] ! i"
      by simp
  qed
  with F(1) have "select_largest L = \<lparr>shape = shape v, flat = map (\<lambda>i. (c, i) \<in> (face_rel v)\<^sup>*) [0..<?n]\<rparr>"
    by (simp add: select_largest_def)
  with lcc_general[OF wf lab K]
  have res: "largest_connected_component (Array v) =
             Inr \<lparr>shape = shape v, flat = map (\<lambda>i. (c, i) \<in> (face_rel v)\<^sup>*) [0..<?n]\<rparr>" by simp
  have first: "\<forall>i. (c, i) \<in> (face_rel v)\<^sup>* \<longrightarrow> c \<le> i"
  proof (intro allI impI)
    fix i assume p: "(c, i) \<in> (face_rel v)\<^sup>*"
    from face_rel_foreground[OF p c(1)] have i: "i < ?n" by (simp add: foreground_def)
    from mem[OF i] p have "flat L ! i = ?m" by simp
    with c(3) i show "c \<le> i" by simp
  qed
  have cc: "card (component v c) = count_list (flat L) ?m"
    using component_card[OF wf lab c(1)] c(2) by simp
  have size: "\<forall>j. foreground v j \<longrightarrow> card (component v j) \<le> card (component v c)"
  proof (intro allI impI)
    fix j assume j: "foreground v j"
    from lab_of[OF j] A(3)[of "flat L ! j"] component_card[OF wf lab j] cc
    show "card (component v j) \<le> card (component v c)" by simp
  qed
  have tie: "\<forall>j. foreground v j \<longrightarrow> card (component v j) = card (component v c) \<longrightarrow>
                  (c, j) \<notin> (face_rel v)\<^sup>* \<longrightarrow> c < j"
  proof (intro allI impI)
    fix j assume j: "foreground v j" and eq: "card (component v j) = card (component v c)"
      and out: "(c, j) \<notin> (face_rel v)\<^sup>*"
    from j have jn: "j < ?n" by (simp add: foreground_def)
    from mem[OF jn] out have ne: "flat L ! j \<noteq> ?m" by simp
    from eq component_card[OF wf lab j] cc
    have ceq: "count_list (flat L) (flat L ! j) = count_list (flat L) ?m" by simp
    have "\<not> flat L ! j < ?m"
    proof
      assume "flat L ! j < ?m"
      from A(4)[OF _ this] lab_of[OF j] ceq show False by simp
    qed
    with ne have "?m \<le> flat L ! j" by simp
    with c(3) jn have "c \<le> j" by simp
    moreover from out have "c \<noteq> j" by auto
    ultimately show "c < j" by simp
  qed
  from c(1) res first size tie show ?thesis by blast
qed

section \<open>Claims about the largest connected component\<close>

lemma foreground_set: "(\<exists>i. foreground v i) \<longleftrightarrow> (\<exists>x\<in>set (flat v). x \<noteq> 0)"
proof
  assume "\<exists>i. foreground v i"
  then obtain i where "i < length (flat v)" "flat v ! i \<noteq> 0" by (auto simp: foreground_def)
  then show "\<exists>x\<in>set (flat v). x \<noteq> 0" using nth_mem[of i "flat v"] by blast
next
  assume "\<exists>x\<in>set (flat v). x \<noteq> 0"
  then show "\<exists>i. foreground v i" by (auto simp: foreground_def in_set_conv_nth)
qed

lemma lcc_label_char:
  assumes wf: "wf_ndarray v" and ex: "foreground v j0"
  shows "\<exists>m. 0 < m \<and> m \<le> snd (label v) \<and>
           largest_connected_component (Array v) =
             Inr \<lparr>shape = shape v, flat = map (\<lambda>l. l = m) (flat (fst (label v)))\<rparr> \<and>
           (\<forall>l. 0 < l \<longrightarrow> l \<le> snd (label v) \<longrightarrow>
                count_list (flat (fst (label v))) l \<le> count_list (flat (fst (label v))) m) \<and>
           (\<forall>l. 0 < l \<longrightarrow> l < m \<longrightarrow>
                count_list (flat (fst (label v))) l < count_list (flat (fst (label v))) m)"
proof -
  obtain L K where lab: "label v = (L, K)" by (cases "label v")
  note F = label_facts[OF wf lab]
  from F(8) ex have K: "0 < K" by auto
  note A = argmax_label_count[OF wf lab K]
  let ?m = "argmax ((bincount (flat L))[0 := 0])"
  have "largest_connected_component (Array v) = Inr \<lparr>shape = shape v, flat = map (\<lambda>l. l = ?m) (flat L)\<rparr>"
    using lcc_general[OF wf lab K] F(1) by (simp add: select_largest_def)
  with A lab show ?thesis by (intro exI[of _ ?m]) simp
qed

text \<open>
  Claim C2.  A well-formed volume with no non-zero cell makes
  \<open>largest_connected_component\<close> raise the error of line 41 (\<open>NoComponentsError\<close>), and a
  volume with at least one non-zero cell makes it return a mask.
\<close>

theorem lcc_no_components:
  assumes "wf_ndarray v"
  shows "((\<forall>x\<in>set (flat v). x = 0) \<longrightarrow> largest_connected_component (Array v) = Inl NoComponentsError) \<and>
         ((\<exists>x\<in>set (flat v). x \<noteq> 0) \<longrightarrow> (\<exists>m. largest_connected_component (Array v) = Inr m))"
proof (intro conjI impI)
  obtain L K where lab: "label v = (L, K)" by (cases "label v")
  note F = label_facts[OF assms lab]
  {
    assume "\<forall>x\<in>set (flat v). x = 0"
    with foreground_set[of v] have "\<forall>i. \<not> foreground v i" by blast
    with F(8) have "K = 0" by simp
    with lab show "largest_connected_component (Array v) = Inl NoComponentsError" by simp
  }
  {
    assume "\<exists>x\<in>set (flat v). x \<noteq> 0"
    with foreground_set[of v] F(8) have "0 < K" by auto
    from lcc_general[OF assms lab this]
    show "\<exists>m. largest_connected_component (Array v) = Inr m" by blast
  }
qed

theorem lcc_no_components_witness:
  "wf_ndarray \<lparr>shape = [2, 2], flat = [0, 0, 0, 0::int]\<rparr> \<and>
   largest_connected_component (Array \<lparr>shape = [2, 2], flat = [0, 0, 0, 0]\<rparr>) = Inl NoComponentsError \<and>
   wf_ndarray \<lparr>shape = [2, 2], flat = [0, 3, 0, 0::int]\<rparr> \<and>
   (\<exists>m. largest_connected_component (Array \<lparr>shape = [2, 2], flat = [0, 3, 0, 0]\<rparr>) = Inr m)"
proof -
  have w1: "wf_ndarray \<lparr>shape = [2, 2], flat = [0, 0, 0, 0::int]\<rparr>" by (simp add: wf_ndarray_def)
  have w2: "wf_ndarray \<lparr>shape = [2, 2], flat = [0, 3, 0, 0::int]\<rparr>" by (simp add: wf_ndarray_def)
  from lcc_no_components[OF w1]
  have 1: "largest_connected_component (Array \<lparr>shape = [2, 2], flat = [0, 0, 0, 0]\<rparr>) = Inl NoComponentsError"
    by simp
  from lcc_no_components[OF w2]
  have 2: "\<exists>m. largest_connected_component (Array \<lparr>shape = [2, 2], flat = [0, 3, 0, 0]\<rparr>) = Inr m"
    by simp
  show ?thesis by (intro conjI w1 1 w2 2)
qed

text \<open>
  Claim C3, as the code has it.  The labelling counts one feature exactly when the foreground
  is a single component under face adjacency, the connectivity of the labelling, and then
  the short-circuit of line 43 returns the volume cast to boolean, which is also what the
  general path of lines 44 to 47 (\<open>select_largest\<close>) computes from the labels.
\<close>

theorem lcc_single_component:
  assumes wf: "wf_ndarray v"
  shows "(snd (label v) = 1 \<longleftrightarrow> single_face_component v) \<and>
         (snd (label v) = 1 \<longrightarrow>
            largest_connected_component (Array v) = Inr (astype_bool v) \<and>
            select_largest (fst (label v)) = astype_bool v)"
proof -
  obtain L K where lab: "label v = (L, K)" by (cases "label v")
  note F = label_facts[OF wf lab]
  have lab_pos: "0 < flat L ! i \<and> flat L ! i \<le> K" if "foreground v i" for i
  proof -
    from that have i: "i < length (flat v)" by (simp add: foreground_def)
    from F(3)[OF i] F(4)[OF i] that show ?thesis by simp
  qed
  have "single_face_component v" if K: "K = 1"
  proof -
    from F(7)[of 1] K obtain c where c: "foreground v c" "flat L ! c = 1" by auto
    have "(c, i) \<in> (face_rel v)\<^sup>*" if i: "foreground v i" for i
    proof -
      from lab_pos[OF i] K have "flat L ! i = 1" by simp
      with c(2) have "flat L ! c = flat L ! i" "flat L ! c \<noteq> 0" by simp_all
      moreover from c(1) i have "c < length (flat v)" "i < length (flat v)"
        by (simp_all add: foreground_def)
      ultimately show ?thesis using F(6) by simp
    qed
    with c(1) show ?thesis unfolding single_face_component_def by (intro exI[of _ c]) simp
  qed
  moreover have "K = 1" if "single_face_component v"
  proof -
    from that obtain c where c: "foreground v c"
      and all: "\<And>i. foreground v i \<Longrightarrow> (c, i) \<in> (face_rel v)\<^sup>*"
      unfolding single_face_component_def by (elim exE conjE) simp
    have same: "flat L ! i = flat L ! c" if "foreground v i" for i
      by (rule F(5)[OF all[OF that]])
    from lab_pos[OF c] have K: "0 < K" by simp
    from F(7)[of K] K obtain r where "foreground v r" "flat L ! r = K" by auto
    with same[of r] have k: "flat L ! c = K" by simp
    from F(7)[of 1] K obtain r1 where "foreground v r1" "flat L ! r1 = 1" by auto
    with same[of r1] have "flat L ! c = 1" by simp
    with k show ?thesis by simp
  qed
  moreover have "largest_connected_component (Array v) = Inr (astype_bool v) \<and>
            select_largest L = astype_bool v" if K: "K = 1"
    using lab select_largest_single[OF wf, of L] K by simp
  ultimately show ?thesis using lab by auto
qed

theorem lcc_single_component_witness:
  "wf_ndarray \<lparr>shape = [2, 2], flat = [1, 1, 0, 0::int]\<rparr> \<and>
   single_face_component \<lparr>shape = [2, 2], flat = [1, 1, 0, 0]\<rparr> \<and>
   snd (label \<lparr>shape = [2, 2], flat = [1, 1, 0, 0]\<rparr>) = 1 \<and>
   largest_connected_component (Array \<lparr>shape = [2, 2], flat = [1, 1, 0, 0]\<rparr>)
     = Inr \<lparr>shape = [2, 2], flat = [True, True, False, False]\<rparr>"
proof -
  let ?g = "\<lparr>shape = [2, 2], flat = [1, 1, 0, 0::int]\<rparr>"
  have wf: "wf_ndarray ?g" by (simp add: wf_ndarray_def)
  have fg: "foreground ?g i \<longleftrightarrow> i = 0 \<or> i = 1" for i
    by (auto simp: foreground_def nth_Cons split: nat.splits)
  have "(0, 1) \<in> face_rel ?g"
    by (simp add: face_rel_def fg face_adjacent_def)
  then have e: "(0, 1) \<in> (face_rel ?g)\<^sup>*" by (rule r_into_rtrancl)
  have sc: "single_face_component ?g"
    unfolding single_face_component_def
  proof (intro exI[of _ 0] conjI allI impI)
    show "foreground ?g 0" by (simp add: fg)
    fix i assume "foreground ?g i"
    then have "i = 0 \<or> i = 1" by (simp add: fg)
    then show "(0, i) \<in> (face_rel ?g)\<^sup>*" using e by (elim disjE) simp_all
  qed
  note T = lcc_single_component[OF wf]
  from T sc have one: "snd (label ?g) = 1" by (simp del: One_nat_def)
  with T have "largest_connected_component (Array ?g) = Inr (astype_bool ?g)" by (simp del: One_nat_def largest_connected_component.simps)
  then have res: "largest_connected_component (Array ?g) = Inr \<lparr>shape = [2, 2], flat = [True, True, False, False]\<rparr>"
    by (simp add: astype_bool_def del: largest_connected_component.simps)
  show ?thesis by (intro conjI wf sc one res)
qed

text \<open>
  Claim C3 as stated fails when a connected component may run across diagonals.  In the
  2 by 2 volume with ones at (0, 0) and (1, 1) the foreground is one such component, yet the
  labelling counts two features, the general path is taken, and the mask returned holds the
  first cell only: it is not the volume cast to boolean.
\<close>

theorem lcc_diagonal_component_counterexample:
  "single_full_component \<lparr>shape = [2, 2], flat = [1, 0, 0, 1::int]\<rparr> \<and>
   snd (label \<lparr>shape = [2, 2], flat = [1, 0, 0, 1]\<rparr>) = 2 \<and>
   largest_connected_component (Array \<lparr>shape = [2, 2], flat = [1, 0, 0, 1]\<rparr>)
     = Inr \<lparr>shape = [2, 2], flat = [True, False, False, False]\<rparr> \<and>
   astype_bool \<lparr>shape = [2, 2], flat = [1, 0, 0, 1]\<rparr>
     = \<lparr>shape = [2, 2], flat = [True, False, False, True]\<rparr>"
proof -
  let ?g = "\<lparr>shape = [2, 2], flat = [1, 0, 0, 1::int]\<rparr>"
  have fg: "foreground ?g i \<longleftrightarrow> i = 0 \<or> i = 3" for i
    by (auto simp: foreground_def nth_Cons split: nat.splits)
  have u: "unravel_index 0 [2, 2] = [0, 0]" "unravel_index 3 [2, 2] = [1, 1]" by code_simp+
  have "full_adjacent [0, 0] [1, 1]" by code_simp
  with u have "(0, 3) \<in> full_rel ?g" by (simp add: full_rel_def fg)
  then have e: "(0, 3) \<in> (full_rel ?g)\<^sup>*" by (rule r_into_rtrancl)
  have sc: "single_full_component ?g"
    unfolding single_full_component_def
  proof (intro exI[of _ 0] conjI allI impI)
    show "foreground ?g 0" by (simp add: fg)
    fix i assume "foreground ?g i"
    then have "i = 0 \<or> i = 3" by (simp add: fg)
    then show "(0, i) \<in> (full_rel ?g)\<^sup>*" using e by (elim disjE) simp_all
  qed
  have l: "snd (label ?g) = 2" by code_simp
  have r: "largest_connected_component (Array ?g) = Inr \<lparr>shape = [2, 2], flat = [True, False, False, False]\<rparr>"
    by code_simp
  have b: "astype_bool ?g = \<lparr>shape = [2, 2], flat = [True, False, False, True]\<rparr>"
    by (simp add: astype_bool_def)
  show ?thesis by (intro conjI sc l r b)
qed

text \<open>
  Claim C1, as the code has it.  \<^verbatim>\<open>ndimage.label(volume)\<close> is called with its default
  structuring element, so cells are joined across faces only.  On a well-formed volume with
  a foreground cell the returned mask is true exactly on the cells connected to one
  foreground cell \<open>c\<close> through face-adjacent foreground cells: one maximal face-connected
  region.
\<close>

theorem lcc_face_component:
  assumes wf: "wf_ndarray v" and ex: "foreground v j0"
  shows "\<exists>c. foreground v c \<and>
           largest_connected_component (Array v) =
             Inr \<lparr>shape = shape v, flat = map (\<lambda>i. (c, i) \<in> (face_rel v)\<^sup>*) [0..<length (flat v)]\<rparr>"
proof -
  from lcc_char[OF wf ex] obtain c where "foreground v c"
    "largest_connected_component (Array v) =
             Inr \<lparr>shape = shape v, flat = map (\<lambda>i. (c, i) \<in> (face_rel v)\<^sup>*) [0..<length (flat v)]\<rparr>"
    by (elim exE conjE)
  then show ?thesis by (intro exI[of _ c] conjI)
qed

theorem lcc_face_component_witness:
  "wf_ndarray \<lparr>shape = [2, 2], flat = [1, 0, 0, 1::int]\<rparr> \<and>
   foreground \<lparr>shape = [2, 2], flat = [1, 0, 0, 1]\<rparr> 0 \<and>
   (\<exists>c. foreground \<lparr>shape = [2, 2], flat = [1, 0, 0, 1]\<rparr> c \<and>
      largest_connected_component (Array \<lparr>shape = [2, 2], flat = [1, 0, 0, 1]\<rparr>) =
        Inr \<lparr>shape = shape \<lparr>shape = [2, 2], flat = [1, 0, 0, 1::int]\<rparr>,
             flat = map (\<lambda>i. (c, i) \<in> (face_rel \<lparr>shape = [2, 2], flat = [1, 0, 0, 1]\<rparr>)\<^sup>*)
                        [0..<length (flat \<lparr>shape = [2, 2], flat = [1, 0, 0, 1::int]\<rparr>)]\<rparr>)"
proof -
  let ?g = "\<lparr>shape = [2, 2], flat = [1, 0, 0, 1::int]\<rparr>"
  have wf: "wf_ndarray ?g" by (simp add: wf_ndarray_def)
  have fg: "foreground ?g 0" by (simp add: foreground_def)
  show ?thesis by (intro conjI wf fg lcc_face_component[OF wf fg])
qed

text \<open>
  Claim C1 as stated fails.  In the 2 by 2 volume with ones at (0, 0) and (1, 1) the two
  foreground cells differ by at most one in every axis, yet the mask holds the first and not
  the second.
\<close>

theorem lcc_full_connectivity_counterexample:
  "largest_connected_component (Array \<lparr>shape = [2, 2], flat = [1, 0, 0, 1]\<rparr>)
     = Inr \<lparr>shape = [2, 2], flat = [True, False, False, False]\<rparr> \<and>
   unravel_index 0 [2, 2] = [0, 0] \<and> unravel_index 3 [2, 2] = [1, 1] \<and>
   full_adjacent [0, 0] [1, 1]"
  by code_simp

text \<open>
  Claim C10.  \<open>largest_connected_component\<close> is a function of its argument.  On a
  well-formed volume with a foreground cell the mask selects the label \<open>m\<close> of maximal
  count, and every smaller positive label has a strictly smaller count.  In terms of cells:
  the mask is the component of a cell \<open>c\<close> that is the first cell of its component in raster
  order, no component is larger, and every cell of another component of the same size comes
  after \<open>c\<close>.
\<close>

theorem lcc_tie_break:
  assumes wf: "wf_ndarray v" and ex: "foreground v j0"
  shows "(\<exists>m. 0 < m \<and> m \<le> snd (label v) \<and>
           largest_connected_component (Array v) =
             Inr \<lparr>shape = shape v, flat = map (\<lambda>l. l = m) (flat (fst (label v)))\<rparr> \<and>
           (\<forall>l. 0 < l \<longrightarrow> l \<le> snd (label v) \<longrightarrow>
                count_list (flat (fst (label v))) l \<le> count_list (flat (fst (label v))) m) \<and>
           (\<forall>l. 0 < l \<longrightarrow> l < m \<longrightarrow>
                count_list (flat (fst (label v))) l < count_list (flat (fst (label v))) m)) \<and>
         (\<exists>c. foreground v c \<and>
           largest_connected_component (Array v) =
             Inr \<lparr>shape = shape v, flat = map (\<lambda>i. (c, i) \<in> (face_rel v)\<^sup>*) [0..<length (flat v)]\<rparr> \<and>
           (\<forall>i. (c, i) \<in> (face_rel v)\<^sup>* \<longrightarrow> c \<le> i) \<and>
           (\<forall>j. foreground v j \<longrightarrow> card (component v j) \<le> card (component v c)) \<and>
           (\<forall>j. foreground v j \<longrightarrow> card (component v j) = card (component v c) \<longrightarrow>
                  (c, j) \<notin> (face_rel v)\<^sup>* \<longrightarrow> c < j))"
  by (intro conjI lcc_label_char[OF wf ex] lcc_char[OF wf ex])

theorem lcc_tie_break_witness:
  "wf_ndarray \<lparr>shape = [3], flat = [1, 0, 1::int]\<rparr> \<and>
   foreground \<lparr>shape = [3], flat = [1, 0, 1]\<rparr> 2 \<and>
   largest_connected_component (Array \<lparr>shape = [3], flat = [1, 0, 1]\<rparr>)
     = Inr \<lparr>shape = [3], flat = [True, False, False]\<rparr> \<and>
   (\<exists>c. foreground \<lparr>shape = [3], flat = [1, 0, 1]\<rparr> c \<and>
      largest_connected_component (Array \<lparr>shape = [3], flat = [1, 0, 1]\<rparr>) =
        Inr \<lparr>shape = shape \<lparr>shape = [3], flat = [1, 0, 1::int]\<rparr>,
             flat = map (\<lambda>i. (c, i) \<in> (face_rel \<lparr>shape = [3], flat = [1, 0, 1]\<rparr>)\<^sup>*)
                        [0..<length (flat \<lparr>shape = [3], flat = [1, 0, 1::int]\<rparr>)]\<rparr> \<and>
      (\<forall>i. (c, i) \<in> (face_rel \<lparr>shape = [3], flat = [1, 0, 1]\<rparr>)\<^sup>* \<longrightarrow> c \<le> i) \<and>
      (\<forall>j. foreground \<lparr>shape = [3], flat = [1, 0, 1]\<rparr> j \<longrightarrow>
           card (component \<lparr>shape = [3], flat = [1, 0, 1]\<rparr> j)
             \<le> card (component \<lparr>shape = [3], flat = [1, 0, 1]\<rparr> c)) \<and>
      (\<forall>j. foreground \<lparr>shape = [3], flat = [1, 0, 1]\<rparr> j \<longrightarrow>
           card (component \<lparr>shape = [3], flat = [1, 0, 1]\<rparr> j)
             = card (component \<lparr>shape = [3], flat = [1, 0, 1]\<rparr> c) \<longrightarrow>
           (c, j) \<notin> (face_rel \<lparr>shape = [3], flat = [1, 0, 1]\<rparr>)\<^sup>* \<longrightarrow> c < j))"
proof -
  let ?g = "\<lparr>shape = [3], flat = [1, 0, 1::int]\<rparr>"
  have wf: "wf_ndarray ?g" by (simp add: wf_ndarray_def)
  have fg: "foreground ?g 2" by (simp add: foreground_def)
  have res: "largest_connected_component (Array ?g) = Inr \<lparr>shape = [3], flat = [True, False, False]\<rparr>"
    by code_simp
  show ?thesis by (intro conjI wf fg res conjunct2[OF lcc_tie_break[OF wf fg]])
qed

section \<open>The peak detector in closed form\<close>

text \<open>
  The early return, the selected positions and the mask built from them.
\<close>

lemma constant_grid_iff:
  assumes "flat img = x0 # xs"
  shows "list_all (\<lambda>x. x = x0) (flat img) \<longleftrightarrow> constant_grid img"
proof -
  from assms have x0: "x0 \<in> set (flat img)" by simp
  show "list_all (\<lambda>x. x = x0) (flat img) \<longleftrightarrow> constant_grid img"
  proof
    assume "list_all (\<lambda>x. x = x0) (flat img)"
    then have "\<forall>x\<in>set (flat img). x = x0" by (simp only: list_all_iff)
    then show "constant_grid img" unfolding constant_grid_def by metis
  next
    assume "constant_grid img"
    with x0 have "\<forall>x\<in>set (flat img). x = x0" unfolding constant_grid_def by blast
    then show "list_all (\<lambda>x. x = x0) (flat img)" by (simp only: list_all_iff)
  qed
qed

lemma not_constant_nonempty: "\<not> constant_grid img \<Longrightarrow> flat img \<noteq> []"
  by (auto simp: constant_grid_def)

lemma masked_image_shape: "shape (masked_image img sz) = shape img"
  by (simp add: masked_image_def Let_def)

lemma maximum_filter_length: "length (flat (maximum_filter img sz)) = length (flat img)"
  by (simp add: maximum_filter_def window_maximum_def)

lemma masked_image_length: "length (flat (masked_image img sz)) = length (flat img)"
  by (simp add: masked_image_def maximum_filter_length Let_def)

lemma slice_upto_map: "slice_upto k (map f xs) = map f (slice_upto k xs)"
  by (simp add: slice_upto_def take_map)

lemma set_slice_upto: "set (slice_upto k xs) \<subseteq> set xs"
  by (auto simp: slice_upto_def dest: in_set_takeD)

section \<open>The sorting permutation\<close>

lemma stable_argsort_zip_fst:
  assumes "p \<in> set (sort_key fst (zip xs [0..<length xs]))"
  shows "snd p < length xs \<and> fst p = xs ! snd p"
proof -
  from assms have "p \<in> set (zip xs [0..<length xs])" by simp
  then show ?thesis by (auto simp: set_zip)
qed

lemma stable_argsort_length: "length (stable_argsort xs) = length xs"
  by (simp add: stable_argsort_def)

lemma stable_argsort_set: "set (stable_argsort xs) = {0..<length xs}"
proof -
  have m: "map snd (zip xs [0..<length xs]) = [0..<length xs]" by (rule map_snd_zip) simp
  have "set (stable_argsort xs) = snd ` set (zip xs [0..<length xs])" by (simp add: stable_argsort_def)
  also have "\<dots> = set (map snd (zip xs [0..<length xs]))" by (simp only: set_map)
  also have "\<dots> = set [0..<length xs]" by (simp only: m)
  finally show ?thesis by simp
qed

lemma stable_argsort_sorted: "sorted (map (\<lambda>j. xs ! j) (stable_argsort xs))"
proof -
  let ?ys = "sort_key fst (zip xs [0..<length xs])"
  have "map (\<lambda>j. xs ! j) (stable_argsort xs) = map fst ?ys"
    unfolding stable_argsort_def map_map
  proof (rule map_cong[OF refl])
    fix p assume "p \<in> set ?ys"
    from stable_argsort_zip_fst[OF this] show "((\<lambda>j. xs ! j) \<circ> snd) p = fst p" by simp
  qed
  moreover have "sorted (map fst ?ys)" by (rule sorted_sort_key)
  ultimately show ?thesis by simp
qed

lemma stable_argsort_sorting: "sorting_permutation stable_argsort"
  unfolding sorting_permutation_def
  by (intro allI conjI stable_argsort_length stable_argsort_set stable_argsort_sorted)

lemma argsort_length: "sorting_permutation srt \<Longrightarrow> length (srt xs) = length xs"
  by (simp add: sorting_permutation_def)

lemma argsort_set: "sorting_permutation srt \<Longrightarrow> set (srt xs) = {0..<length xs}"
  by (simp add: sorting_permutation_def)

lemma argsort_sorted: "sorting_permutation srt \<Longrightarrow> sorted (map (\<lambda>j. xs ! j) (srt xs))"
  by (simp add: sorting_permutation_def)

lemma argsort_distinct:
  assumes "sorting_permutation srt"
  shows "distinct (srt xs)"
proof -
  have "length (srt xs) = card (set (srt xs))"
    by (simp add: argsort_set[OF assms] argsort_length[OF assms])
  then show ?thesis by (simp add: card_distinct)
qed

lemma foldl_update_length:
  "length (foldl (\<lambda>fl c. fl[f c := True]) fl cs) = length fl"
  by (induction cs arbitrary: fl) simp_all

lemma foldl_update_nth:
  "i < length fl \<Longrightarrow> foldl (\<lambda>fl c. fl[f c := True]) fl cs ! i \<longleftrightarrow> fl ! i \<or> i \<in> f ` set cs"
proof (induction cs arbitrary: fl)
  case Nil
  then show ?case by simp
next
  case (Cons c cs)
  from Cons.prems have "i < length (fl[f c := True])" by simp
  from Cons.IH[OF this]
  have "foldl (\<lambda>fl c. fl[f c := True]) (fl[f c := True]) cs ! i
          \<longleftrightarrow> fl[f c := True] ! i \<or> i \<in> f ` set cs" .
  moreover have "fl[f c := True] ! i \<longleftrightarrow> fl ! i \<or> i = f c"
    using Cons.prems by (cases "i = f c") (simp_all add: nth_list_update)
  ultimately show ?case by auto
qed

lemma survivors_less: "i \<in> set (survivors img sz ta tr) \<Longrightarrow> i < length (flat img)"
  by (simp add: survivors_def)

lemma survivors_iff:
  "i \<in> set (survivors img sz ta tr) \<longleftrightarrow>
     i < length (flat img) \<and> flat (masked_image img sz) ! i > peak_threshold img sz ta tr"
  by (auto simp: survivors_def)

lemma survivors_distinct: "distinct (survivors img sz ta tr)"
  by (simp add: survivors_def)

lemma kept_subset:
  assumes srt: "sorting_permutation srt"
  shows "set (kept srt img sz ta tr np) \<subseteq> set (survivors img sz ta tr)"
proof (cases np)
  case Infinite
  then show ?thesis by (simp add: kept_def)
next
  case (Finite k)
  let ?sel = "survivors img sz ta tr"
  let ?idx = "rev (srt (map (\<lambda>i. flat (masked_image img sz) ! i) ?sel))"
  have "set (map (\<lambda>j. ?sel ! j) ?idx) \<subseteq> set ?sel"
    by (auto simp: argsort_set[OF srt])
  with set_slice_upto[of k "map (\<lambda>j. ?sel ! j) ?idx"]
  have "set (slice_upto k (map (\<lambda>j. ?sel ! j) ?idx)) \<subseteq> set ?sel" by blast
  with Finite show ?thesis by (simp add: kept_def Let_def)
qed

lemma kept_less:
  assumes srt: "sorting_permutation srt" and i: "i \<in> set (kept srt img sz ta tr np)"
  shows "i < length (flat img)"
proof -
  from i kept_subset[OF srt, of img sz ta tr np] have "i \<in> set (survivors img sz ta tr)" by blast
  then show ?thesis by (rule survivors_less)
qed

lemma argwhere_survivors:
  "argwhere \<lparr>shape = shape (masked_image img sz),
             flat = map (\<lambda>x. x > peak_threshold img sz ta tr) (flat (masked_image img sz))\<rparr>
   = map (\<lambda>i. unravel_index i (shape img)) (survivors img sz ta tr)"
proof -
  have "filter (\<lambda>i. map (\<lambda>x. x > peak_threshold img sz ta tr) (flat (masked_image img sz)) ! i)
          [0..<length (flat img)]
      = survivors img sz ta tr"
    unfolding survivors_def
    by (rule filter_cong[OF refl]) (simp add: masked_image_length)
  then show ?thesis
    by (simp add: argwhere_def masked_image_shape masked_image_length)
qed

lemma coordinates_kept:
  fixes img :: "real ndarray" and sz :: int and ta tr :: real
  assumes wf: "wf_ndarray img" and srt: "sorting_permutation srt"
  defines "masked \<equiv> masked_image img sz"
  defines "coordinates \<equiv> map (\<lambda>i. unravel_index i (shape img)) (survivors img sz ta tr)"
  shows "(case np of
            Infinite \<Rightarrow> coordinates
          | Finite k \<Rightarrow>
              if int (length coordinates) > k
              then
                let intensities =
                      map (\<lambda>c. flat masked ! ravel_multi_index c (shape masked)) coordinates;
                    idx_maxsort = rev (srt intensities)
                in slice_upto k (map (\<lambda>j. coordinates ! j) idx_maxsort)
              else coordinates)
         = map (\<lambda>i. unravel_index i (shape img)) (kept srt img sz ta tr np)"
proof (cases np)
  case Infinite
  then show ?thesis by (simp add: kept_def coordinates_def)
next
  case (Finite k)
  let ?sel = "survivors img sz ta tr"
  have n: "length (flat img) = prod_list (shape img)" using wf by (simp add: wf_ndarray_def)
  have int: "map (\<lambda>c. flat masked ! ravel_multi_index c (shape masked)) coordinates
             = map (\<lambda>i. flat masked ! i) ?sel"
    unfolding coordinates_def map_map
  proof (rule map_cong[OF refl])
    fix i assume "i \<in> set ?sel"
    from survivors_less[OF this] n have "i < prod_list (shape img)" by simp
    then show "((\<lambda>c. flat masked ! ravel_multi_index c (shape masked)) \<circ> (\<lambda>i. unravel_index i (shape img))) i
              = flat masked ! i"
      by (simp add: masked_def masked_image_shape ravel_unravel)
  qed
  let ?idx = "rev (srt (map (\<lambda>i. flat masked ! i) ?sel))"
  have "map (\<lambda>j. coordinates ! j) ?idx = map (\<lambda>i. unravel_index i (shape img)) (map (\<lambda>j. ?sel ! j) ?idx)"
    unfolding map_map
  proof (rule map_cong[OF refl])
    fix j assume "j \<in> set ?idx"
    then have "j < length ?sel" by (simp add: argsort_set[OF srt])
    then show "coordinates ! j = ((\<lambda>i. unravel_index i (shape img)) \<circ> (\<lambda>j. ?sel ! j)) j"
      by (simp add: coordinates_def)
  qed
  then have sl: "slice_upto k (map (\<lambda>j. coordinates ! j) ?idx)
           = map (\<lambda>i. unravel_index i (shape img)) (slice_upto k (map (\<lambda>j. ?sel ! j) ?idx))"
    by (simp only: slice_upto_map)
  have len: "length coordinates = length ?sel" by (simp add: coordinates_def)
  show ?thesis
  proof (cases "int (length ?sel) > k")
    case True
    have "kept srt img sz ta tr np = slice_upto k (map (\<lambda>j. ?sel ! j) ?idx)"
      by (simp only: kept_def Let_def Finite num_peaks_arg.case True if_True masked_def)
    with sl show ?thesis
      by (simp only: Finite num_peaks_arg.case len True if_True Let_def int)
  next
    case False
    have "kept srt img sz ta tr np = ?sel"
      by (simp only: kept_def Let_def Finite num_peaks_arg.case False if_False)
    moreover have "length (map (\<lambda>i. unravel_index i (shape img)) ?sel) = length ?sel"
      by simp
    ultimately show ?thesis
      by (simp only: Finite num_peaks_arg.case False if_False coordinates_def)
  qed
qed

lemma set_true_kept:
  assumes wf: "wf_ndarray img" and less: "\<And>i. i \<in> set ks \<Longrightarrow> i < length (flat img)"
  shows "set_true (zeros_like img) (map (\<lambda>i. unravel_index i (shape img)) ks)
         = \<lparr>shape = shape img, flat = map (\<lambda>i. i \<in> set ks) [0..<length (flat img)]\<rparr>"
proof -
  let ?f = "\<lambda>c. ravel_multi_index c (shape img)"
  let ?cs = "map (\<lambda>i. unravel_index i (shape img)) ks"
  let ?fl = "foldl (\<lambda>fl c. fl[?f c := True]) (replicate (length (flat img)) False) ?cs"
  have n: "length (flat img) = prod_list (shape img)" using wf by (simp add: wf_ndarray_def)
  have img: "?f ` set ?cs = set ks"
  proof -
    have "map ?f ?cs = map (\<lambda>i. i) ks"
      unfolding map_map
      by (rule map_cong[OF refl]) (use less n in \<open>simp add: ravel_unravel\<close>)
    then have "set (map ?f ?cs) = set ks" by simp
    then show ?thesis by (simp only: set_map)
  qed
  have "?fl = map (\<lambda>i. i \<in> set ks) [0..<length (flat img)]"
  proof (rule nth_equalityI)
    show "length ?fl = length (map (\<lambda>i. i \<in> set ks) [0..<length (flat img)])"
      by (simp add: foldl_update_length)
    fix i assume "i < length ?fl"
    then have i: "i < length (flat img)" by (simp add: foldl_update_length)
    then have "?fl ! i \<longleftrightarrow> i \<in> ?f ` set ?cs"
      using foldl_update_nth[of i "replicate (length (flat img)) False" ?f ?cs] by simp
    with img i show "?fl ! i = map (\<lambda>i. i \<in> set ks) [0..<length (flat img)] ! i" by simp
  qed
  then show ?thesis by (simp add: set_true_def zeros_like_def)
qed

lemma peak_local_max_constant:
  assumes "flat img \<noteq> []" "constant_grid img"
  shows "peak_local_max srt img md ta tr np = Inr (zeros_like img)"
proof -
  from assms(1) obtain x0 xs where f: "flat img = x0 # xs" by (cases "flat img") auto
  from constant_grid_iff[OF f] assms(2) have "list_all (\<lambda>x. x = x0) (flat img)" by simp
  with f show ?thesis by (simp add: peak_local_max_def)
qed

lemma peak_local_max_main:
  assumes wf: "wf_ndarray img" and nc: "\<not> constant_grid img" and srt: "sorting_permutation srt"
  shows "peak_local_max srt img md ta tr np =
           Inr \<lparr>shape = shape img,
                flat = map (\<lambda>i. i \<in> set (kept srt img (2 * md + 1) ta tr np)) [0..<length (flat img)]\<rparr>"
proof -
  let ?sz = "2 * md + 1"
  from not_constant_nonempty[OF nc] obtain x0 xs where f: "flat img = x0 # xs"
    by (cases "flat img") auto
  from constant_grid_iff[OF f] nc have na: "\<not> list_all (\<lambda>x. x = x0) (flat img)" by simp
  from na have na': "list_all (\<lambda>x. x = x0) (x0 # xs) = False" by (simp only: f)
  note AS = argwhere_survivors[unfolded peak_threshold_def, where img = img and sz = ?sz and ta = ta and tr = tr]
  note CK = coordinates_kept[OF wf srt, unfolded Let_def, where sz = ?sz and ta = ta and tr = tr and np = np]
  have "peak_local_max srt img md ta tr np =
        Inr (set_true (zeros_like img) (map (\<lambda>i. unravel_index i (shape img)) (kept srt img ?sz ta tr np)))"
    unfolding peak_local_max_def Let_def
    by (simp only: f list.case na' if_False AS CK)
  also have "set_true (zeros_like img) (map (\<lambda>i. unravel_index i (shape img)) (kept srt img ?sz ta tr np))
      = \<lparr>shape = shape img, flat = map (\<lambda>i. i \<in> set (kept srt img ?sz ta tr np)) [0..<length (flat img)]\<rparr>"
    by (rule set_true_kept[OF wf]) (rule kept_less[OF srt])
  finally show ?thesis .
qed

text \<open>
  A negative \<open>min_distance\<close> gives a filter size below one: the filter is left out, every
  cell is its own candidate, and a mask is returned.
\<close>

lemma peak_local_max_negative_distance:
  "peak_local_max stable_argsort \<lparr>shape = [5], flat = [0, 5, 0, 3, 0]\<rparr> (- 1) 0 (1 / 10) Infinite
     = Inr \<lparr>shape = [5], flat = [False, True, False, True, False]\<rparr>"
  by code_simp

lemma true_cells_kept:
  assumes "\<And>i. i \<in> set ks \<Longrightarrow> i < n"
  shows "true_cells \<lparr>shape = sh, flat = map (\<lambda>i. i \<in> set ks) [0..<n]\<rparr> = set ks"
  using assms by (auto simp: true_cells_def)

lemma true_cells_zeros: "true_cells (zeros_like img) = {}"
  by (auto simp: true_cells_def zeros_like_def)

lemma slice_upto_nonneg: "0 \<le> k \<Longrightarrow> slice_upto k xs = take (nat k) xs"
  by (simp add: slice_upto_def)

lemma kept_no_truncation:
  "(\<forall>k. np = Finite k \<longrightarrow> int (length (survivors img sz ta tr)) \<le> k) \<Longrightarrow>
   kept srt img sz ta tr np = survivors img sz ta tr"
  by (cases np) (auto simp: kept_def Let_def)

lemma kept_truncated:
  assumes srt: "sorting_permutation srt"
    and k: "0 \<le> k" and gt: "k < int (length (survivors img sz ta tr))"
  defines "sel \<equiv> survivors img sz ta tr"
  defines "idx \<equiv> rev (srt (map (\<lambda>i. flat (masked_image img sz) ! i) sel))"
  shows "kept srt img sz ta tr (Finite k) = map (\<lambda>j. sel ! j) (take (nat k) idx)"
    and "distinct (kept srt img sz ta tr (Finite k))"
    and "length (kept srt img sz ta tr (Finite k)) = nat k"
    and "\<And>i j. i \<in> set (kept srt img sz ta tr (Finite k)) \<Longrightarrow> j \<in> set sel \<Longrightarrow>
            j \<notin> set (kept srt img sz ta tr (Finite k)) \<Longrightarrow>
            flat (masked_image img sz) ! j \<le> flat (masked_image img sz) ! i"
proof -
  let ?m = "flat (masked_image img sz)"
  let ?ints = "map (\<lambda>i. ?m ! i) sel"
  have idx_set: "set idx = {0..<length sel}" by (simp add: idx_def argsort_set[OF srt])
  have idx_dist: "distinct idx" by (simp add: idx_def argsort_distinct[OF srt])
  have idx_len: "length idx = length sel" by (simp add: idx_def argsort_length[OF srt])
  show eq: "kept srt img sz ta tr (Finite k) = map (\<lambda>j. sel ! j) (take (nat k) idx)"
    using gt k by (simp add: kept_def Let_def sel_def idx_def slice_upto_nonneg take_map)
  have inj: "inj_on (\<lambda>j. sel ! j) (set (take (nat k) idx))"
  proof (rule inj_onI)
    fix a b assume a: "a \<in> set (take (nat k) idx)" and b: "b \<in> set (take (nat k) idx)"
      and e: "sel ! a = sel ! b"
    from a b idx_set have "a < length sel" "b < length sel"
      by (auto dest!: in_set_takeD)
    with e show "a = b"
      using survivors_distinct[of img sz ta tr] by (simp add: sel_def nth_eq_iff_index_eq)
  qed
  show "distinct (kept srt img sz ta tr (Finite k))"
    unfolding eq using idx_dist inj by (simp add: distinct_map)
  show "length (kept srt img sz ta tr (Finite k)) = nat k"
    unfolding eq using gt idx_len by (simp add: sel_def)
  have desc: "sorted_wrt (\<ge>) (map (\<lambda>j. ?ints ! j) idx)"
  proof -
    have "sorted (map (\<lambda>j. ?ints ! j) (srt ?ints))" by (rule argsort_sorted[OF srt])
    then have "sorted_wrt (\<ge>) (rev (map (\<lambda>j. ?ints ! j) (srt ?ints)))"
      by (simp add: sorted_wrt_rev)
    then show ?thesis by (simp add: idx_def rev_map)
  qed
  show "?m ! j \<le> ?m ! i"
    if i: "i \<in> set (kept srt img sz ta tr (Finite k))" and j: "j \<in> set sel"
      and nj: "j \<notin> set (kept srt img sz ta tr (Finite k))" for i j
  proof -
    from i eq obtain a where a: "a \<in> set (take (nat k) idx)" "i = sel ! a" by auto
    from j obtain b where b: "b < length sel" "j = sel ! b" by (auto simp: in_set_conv_nth)
    from b(1) idx_set have "b \<in> set idx" by simp
    then have "b \<in> set (take (nat k) idx) \<or> b \<in> set (drop (nat k) idx)"
      using set_append[of "take (nat k) idx" "drop (nat k) idx"] by (simp only: append_take_drop_id) blast
    moreover have "b \<notin> set (take (nat k) idx)"
      using nj b(2) eq by auto
    ultimately have bd: "b \<in> set (drop (nat k) idx)" by simp
    have "sorted_wrt (\<ge>) (map (\<lambda>j. ?ints ! j) (take (nat k) idx) @ map (\<lambda>j. ?ints ! j) (drop (nat k) idx))"
      using desc by (simp only: map_append[symmetric] append_take_drop_id)
    then have "\<forall>x\<in>set (map (\<lambda>j. ?ints ! j) (take (nat k) idx)).
                 \<forall>y\<in>set (map (\<lambda>j. ?ints ! j) (drop (nat k) idx)). x \<ge> y"
      by (simp only: sorted_wrt_append) blast
    with a(1) bd have "?ints ! b \<le> ?ints ! a" by simp
    moreover from a(1) idx_set have "a < length sel" by (auto dest!: in_set_takeD)
    ultimately show ?thesis using a(2) b by simp
  qed
qed

section \<open>Claims about the peak detector\<close>

text \<open>
  Claim C4.  On a well-formed grid that is not constant, for every \<open>min_distance\<close> and
  every sort that returns a sorting permutation, \<open>peak_local_max\<close> returns a mask, and a
  cell is true in it only when its value in the masked grid is strictly greater than
  \<open>max (max(masked grid) * threshold_rel) threshold_abs\<close>; a cell whose masked value equals
  the threshold is therefore false.  When \<open>num_peaks\<close> does not truncate, the mask is true
  exactly on the cells above the threshold.
\<close>

theorem peak_local_max_threshold:
  assumes wf: "wf_ndarray img" and nc: "\<not> constant_grid img" and srt: "sorting_permutation argsort"
  shows "\<exists>out. peak_local_max argsort img min_distance threshold_abs threshold_rel num_peaks = Inr out \<and>
           shape out = shape img \<and> length (flat out) = length (flat img) \<and>
           (\<forall>i<length (flat img). flat out ! i \<longrightarrow>
              flat (masked_image img (2 * min_distance + 1)) ! i
                > max (Max (set (flat (masked_image img (2 * min_distance + 1)))) * threshold_rel)
                      threshold_abs) \<and>
           ((\<forall>k. num_peaks = Finite k \<longrightarrow>
                int (length (survivors img (2 * min_distance + 1) threshold_abs threshold_rel)) \<le> k) \<longrightarrow>
            (\<forall>i<length (flat img). flat out ! i \<longleftrightarrow>
              flat (masked_image img (2 * min_distance + 1)) ! i
                > max (Max (set (flat (masked_image img (2 * min_distance + 1)))) * threshold_rel)
                      threshold_abs))"
proof -
  let ?sz = "2 * min_distance + 1"
  let ?ks = "kept argsort img ?sz threshold_abs threshold_rel num_peaks"
  let ?out = "\<lparr>shape = shape img, flat = map (\<lambda>i. i \<in> set ?ks) [0..<length (flat img)]\<rparr>"
  let ?thr = "max (Max (set (flat (masked_image img ?sz))) * threshold_rel) threshold_abs"
  have res: "peak_local_max argsort img min_distance threshold_abs threshold_rel num_peaks = Inr ?out"
    by (rule peak_local_max_main[OF wf nc srt])
  have sel: "i \<in> set (survivors img ?sz threshold_abs threshold_rel) \<longleftrightarrow>
               i < length (flat img) \<and> flat (masked_image img ?sz) ! i > ?thr" for i
    by (simp add: survivors_iff peak_threshold_def)
  have a: "\<forall>i<length (flat img). flat ?out ! i \<longrightarrow> flat (masked_image img ?sz) ! i > ?thr"
  proof (intro allI impI)
    fix i assume i: "i < length (flat img)" and o: "flat ?out ! i"
    from o i have "i \<in> set ?ks" by simp
    with kept_subset[OF srt, of img ?sz threshold_abs threshold_rel num_peaks]
    have "i \<in> set (survivors img ?sz threshold_abs threshold_rel)" by blast
    with sel[of i] show "flat (masked_image img ?sz) ! i > ?thr" by simp
  qed
  have b: "\<forall>i<length (flat img). flat ?out ! i \<longleftrightarrow> flat (masked_image img ?sz) ! i > ?thr"
    if "\<forall>k. num_peaks = Finite k \<longrightarrow>
          int (length (survivors img ?sz threshold_abs threshold_rel)) \<le> k"
  proof (intro allI impI)
    fix i assume i: "i < length (flat img)"
    from kept_no_truncation[OF that] have "?ks = survivors img ?sz threshold_abs threshold_rel" .
    with sel[of i] i show "flat ?out ! i \<longleftrightarrow> flat (masked_image img ?sz) ! i > ?thr" by simp
  qed
  have c: "shape ?out = shape img" "length (flat ?out) = length (flat img)" by simp_all
  from res c a b show ?thesis by (intro exI[of _ ?out] conjI impI) assumption+
qed

text \<open>
  Claim C6, as the code has it.  On a non-empty grid whose cells all hold the same value,
  \<open>peak_local_max\<close> returns the all-false mask for every \<open>min_distance\<close>, both thresholds,
  every \<open>num_peaks\<close> and every sort.
\<close>

theorem peak_local_max_constant_grid:
  assumes "flat img \<noteq> []" and "constant_grid img"
  shows "peak_local_max argsort img min_distance threshold_abs threshold_rel num_peaks
           = Inr \<lparr>shape = shape img, flat = replicate (length (flat img)) False\<rparr>"
  using peak_local_max_constant[OF assms] by (simp add: zeros_like_def)

text \<open>
  Claim C7, for a \<open>num_peaks\<close> that is infinite or not negative, every \<open>min_distance\<close> and
  every sort that returns a sorting permutation.  A call on a grid with at least one cell
  returns a mask.  A returned mask never has more than \<open>num_peaks\<close> true cells.  On a grid
  that is not constant its true cells are survivors of the threshold; when there are more
  than \<open>num_peaks\<close> survivors exactly \<open>num_peaks\<close> cells are true and each of them is at
  least as intense as every survivor left out; when there are at most \<open>num_peaks\<close>
  survivors, as always with the default infinity, all of them are true.
\<close>

theorem peak_local_max_top_k:
  assumes wf: "wf_ndarray img" and srt: "sorting_permutation argsort"
    and np: "\<forall>k. num_peaks = Finite k \<longrightarrow> 0 \<le> k"
  shows "(flat img \<noteq> [] \<longrightarrow>
            (\<exists>out. peak_local_max argsort img min_distance threshold_abs threshold_rel num_peaks = Inr out)) \<and>
         (\<forall>out. peak_local_max argsort img min_distance threshold_abs threshold_rel num_peaks = Inr out \<longrightarrow>
            (\<forall>k. num_peaks = Finite k \<longrightarrow> int (card (true_cells out)) \<le> k) \<and>
            (\<not> constant_grid img \<longrightarrow>
               true_cells out \<subseteq> set (survivors img (2 * min_distance + 1) threshold_abs threshold_rel) \<and>
               (\<forall>k. num_peaks = Finite k \<longrightarrow>
                  k < int (length (survivors img (2 * min_distance + 1) threshold_abs threshold_rel)) \<longrightarrow>
                    int (card (true_cells out)) = k \<and>
                    (\<forall>i\<in>true_cells out.
                       \<forall>j\<in>set (survivors img (2 * min_distance + 1) threshold_abs threshold_rel) - true_cells out.
                         flat (masked_image img (2 * min_distance + 1)) ! j
                           \<le> flat (masked_image img (2 * min_distance + 1)) ! i)) \<and>
               ((\<forall>k. num_peaks = Finite k \<longrightarrow>
                    int (length (survivors img (2 * min_distance + 1) threshold_abs threshold_rel)) \<le> k) \<longrightarrow>
                  true_cells out = set (survivors img (2 * min_distance + 1) threshold_abs threshold_rel))))"
proof -
  let ?sz = "2 * min_distance + 1"
  let ?sel = "survivors img ?sz threshold_abs threshold_rel"
  let ?m = "flat (masked_image img ?sz)"
  let ?ks = "kept argsort img ?sz threshold_abs threshold_rel num_peaks"
  let ?out = "\<lparr>shape = shape img, flat = map (\<lambda>i. i \<in> set ?ks) [0..<length (flat img)]\<rparr>"
  let ?run = "peak_local_max argsort img min_distance threshold_abs threshold_rel num_peaks"
  have main: "?run = Inr ?out" if "\<not> constant_grid img"
    by (rule peak_local_max_main[OF wf that srt])
  have const: "?run = Inr (zeros_like img)" if "flat img \<noteq> []" "constant_grid img"
    by (rule peak_local_max_constant[OF that])
  have A: "flat img \<noteq> [] \<longrightarrow> (\<exists>out. ?run = Inr out)"
  proof
    assume ne: "flat img \<noteq> []"
    show "\<exists>out. ?run = Inr out"
    proof (cases "constant_grid img")
      case True
      from const[OF ne True] show ?thesis by (rule exI)
    next
      case False
      from main[OF False] show ?thesis by (rule exI)
    qed
  qed
  have tc: "true_cells ?out = set ?ks" by (rule true_cells_kept) (rule kept_less[OF srt])
  have sub: "set ?ks \<subseteq> set ?sel" by (rule kept_subset[OF srt])
  have small: "set ?ks = set ?sel" if "\<forall>k. num_peaks = Finite k \<longrightarrow> int (length ?sel) \<le> k"
    using kept_no_truncation[OF that] by simp
  have big: "int (card (set ?ks)) = k \<and> (\<forall>i\<in>set ?ks. \<forall>j\<in>set ?sel - set ?ks. ?m ! j \<le> ?m ! i)"
    if f: "num_peaks = Finite k" and gt: "k < int (length ?sel)" for k
  proof -
    from np f have k: "0 \<le> k" by simp
    note T = kept_truncated[OF srt k gt]
    let ?kk = "kept argsort img ?sz threshold_abs threshold_rel (Finite k)"
    from T(2) have "card (set ?kk) = length ?kk" by (rule distinct_card)
    with T(3) k have "int (card (set ?kk)) = k" by simp
    moreover have "\<forall>i\<in>set ?kk. \<forall>j\<in>set ?sel - set ?kk. ?m ! j \<le> ?m ! i"
      using T(4) by blast
    ultimately show ?thesis unfolding f by (rule conjI)
  qed
  have bound: "int (card (set ?ks)) \<le> k" if f: "num_peaks = Finite k" for k
  proof (cases "k < int (length ?sel)")
    case True
    with big[OF f] show ?thesis by simp
  next
    case False
    with f have "\<forall>k'. num_peaks = Finite k' \<longrightarrow> int (length ?sel) \<le> k'" by simp
    from small[OF this] have "set ?ks = set ?sel" .
    moreover have "card (set ?sel) \<le> length ?sel" by (rule card_length)
    ultimately show ?thesis using False by simp
  qed
  have B: "\<forall>out. ?run = Inr out \<longrightarrow>
            (\<forall>k. num_peaks = Finite k \<longrightarrow> int (card (true_cells out)) \<le> k) \<and>
            (\<not> constant_grid img \<longrightarrow>
               true_cells out \<subseteq> set ?sel \<and>
               (\<forall>k. num_peaks = Finite k \<longrightarrow> k < int (length ?sel) \<longrightarrow>
                    int (card (true_cells out)) = k \<and>
                    (\<forall>i\<in>true_cells out. \<forall>j\<in>set ?sel - true_cells out. ?m ! j \<le> ?m ! i)) \<and>
               ((\<forall>k. num_peaks = Finite k \<longrightarrow> int (length ?sel) \<le> k) \<longrightarrow>
                  true_cells out = set ?sel))"
  proof (intro allI impI)
    fix out assume run: "?run = Inr out"
    show "(\<forall>k. num_peaks = Finite k \<longrightarrow> int (card (true_cells out)) \<le> k) \<and>
            (\<not> constant_grid img \<longrightarrow>
               true_cells out \<subseteq> set ?sel \<and>
               (\<forall>k. num_peaks = Finite k \<longrightarrow> k < int (length ?sel) \<longrightarrow>
                    int (card (true_cells out)) = k \<and>
                    (\<forall>i\<in>true_cells out. \<forall>j\<in>set ?sel - true_cells out. ?m ! j \<le> ?m ! i)) \<and>
               ((\<forall>k. num_peaks = Finite k \<longrightarrow> int (length ?sel) \<le> k) \<longrightarrow>
                  true_cells out = set ?sel))"
    proof (cases "constant_grid img")
      case True
      have ne: "flat img \<noteq> []"
      proof
        assume "flat img = []"
        then have "?run = Inl IndexError" by (simp add: peak_local_max_def)
        with run show False by simp
      qed
      from const[OF ne True] run have "out = zeros_like img" by simp
      then have "true_cells out = {}" by (simp add: true_cells_zeros)
      with np True show ?thesis by simp
    next
      case False
      from main[OF False] run have "out = ?out" by simp
      with tc have t: "true_cells out = set ?ks" by simp
      show ?thesis unfolding t
      proof (intro conjI allI impI)
        fix k assume "num_peaks = Finite k"
        then show "int (card (set ?ks)) \<le> k" by (rule bound)
      next
        show "set ?ks \<subseteq> set ?sel" by (rule sub)
      next
        fix k assume "num_peaks = Finite k" "k < int (length ?sel)"
        from big[OF this] show "int (card (set ?ks)) = k" by (rule conjunct1)
      next
        fix k assume "num_peaks = Finite k" "k < int (length ?sel)"
        from big[OF this] show "\<forall>i\<in>set ?ks. \<forall>j\<in>set ?sel - set ?ks. ?m ! j \<le> ?m ! i"
          by (rule conjunct2)
      next
        assume "\<forall>k. num_peaks = Finite k \<longrightarrow> int (length ?sel) \<le> k"
        then show "set ?ks = set ?sel" by (rule small)
      qed
    qed
  qed
  show ?thesis by (rule conjI) (rule A, rule B)
qed

theorem peak_local_max_threshold_witness:
  "wf_ndarray \<lparr>shape = [5], flat = [0, 5, 0, 3, 0::real]\<rparr> \<and>
   \<not> constant_grid \<lparr>shape = [5], flat = [0, 5, 0, 3, 0]\<rparr> \<and>
   sorting_permutation stable_argsort \<and>
   peak_local_max stable_argsort \<lparr>shape = [5], flat = [0, 5, 0, 3, 0]\<rparr> 1 3 (1 / 10) Infinite
     = Inr \<lparr>shape = [5], flat = [False, True, False, False, False]\<rparr> \<and>
   flat (masked_image \<lparr>shape = [5], flat = [0, 5, 0, 3, 0]\<rparr> (2 * 1 + 1)) ! 1
     > max (Max (set (flat (masked_image \<lparr>shape = [5], flat = [0, 5, 0, 3, 0]\<rparr> (2 * 1 + 1)))) * (1 / 10)) 3"
proof -
  let ?g = "\<lparr>shape = [5], flat = [0, 5, 0, 3, 0::real]\<rparr>"
  have wf: "wf_ndarray ?g" by (simp add: wf_ndarray_def)
  have nc: "\<not> constant_grid ?g" by (simp add: constant_grid_def)
  have res: "peak_local_max stable_argsort ?g 1 3 (1 / 10) Infinite
               = Inr \<lparr>shape = [5], flat = [False, True, False, False, False]\<rparr>"
    by code_simp
  from peak_local_max_threshold[OF wf nc stable_argsort_sorting,
      where min_distance = 1 and threshold_abs = 3 and threshold_rel = "1 / 10" and num_peaks = Infinite]
  obtain out where o: "peak_local_max stable_argsort ?g 1 3 (1 / 10) Infinite = Inr out"
    and sel: "\<forall>i<length (flat ?g). flat out ! i \<longrightarrow>
       flat (masked_image ?g (2 * 1 + 1)) ! i
         > max (Max (set (flat (masked_image ?g (2 * 1 + 1)))) * (1 / 10)) 3"
    by auto
  from o res have "out = \<lparr>shape = [5], flat = [False, True, False, False, False]\<rparr>" by simp
  with sel have "flat (masked_image ?g (2 * 1 + 1)) ! 1
         > max (Max (set (flat (masked_image ?g (2 * 1 + 1)))) * (1 / 10)) 3"
    by simp
  with wf nc stable_argsort_sorting res show ?thesis by (intro conjI)
qed

theorem peak_local_max_constant_grid_witness:
  "flat \<lparr>shape = [2, 2], flat = [7, 7, 7, 7::real]\<rparr> \<noteq> [] \<and>
   constant_grid \<lparr>shape = [2, 2], flat = [7, 7, 7, 7]\<rparr> \<and>
   peak_local_max stable_argsort \<lparr>shape = [2, 2], flat = [7, 7, 7, 7]\<rparr> (- 4) 2 5 (Finite 0)
     = Inr \<lparr>shape = [2, 2], flat = [False, False, False, False]\<rparr>"
proof -
  let ?g = "\<lparr>shape = [2, 2], flat = [7, 7, 7, 7::real]\<rparr>"
  have ne: "flat ?g \<noteq> []" by simp
  have c: "constant_grid ?g" by (simp add: constant_grid_def)
  from peak_local_max_constant_grid[OF ne c,
      where argsort = stable_argsort and min_distance = "- 4" and threshold_abs = 2
        and threshold_rel = 5 and num_peaks = "Finite 0"]
  have "peak_local_max stable_argsort ?g (- 4) 2 5 (Finite 0)
     = Inr \<lparr>shape = [2, 2], flat = [False, False, False, False]\<rparr>"
    by (simp add: numeral_eq_Suc)
  with ne c show ?thesis by (intro conjI)
qed

text \<open>
  Claim C6 as stated fails on the grid without cells: all of its cells hold the same value,
  and \<^verbatim>\<open>image.flat[0]\<close> raises.
\<close>

theorem peak_local_max_empty_counterexample:
  "constant_grid \<lparr>shape = [0], flat = []\<rparr> \<and>
   peak_local_max stable_argsort \<lparr>shape = [0], flat = []\<rparr> 1 0 (1 / 10) Infinite = Inl IndexError"
  by (simp add: constant_grid_def peak_local_max_def)

theorem peak_local_max_top_k_witness:
  "wf_ndarray \<lparr>shape = [10], flat = [0, 0, 5, 0, 0, 0, 0, 3, 0, 0::real]\<rparr> \<and>
   sorting_permutation stable_argsort \<and>
   \<not> constant_grid \<lparr>shape = [10], flat = [0, 0, 5, 0, 0, 0, 0, 3, 0, 0]\<rparr> \<and>
   survivors \<lparr>shape = [10], flat = [0, 0, 5, 0, 0, 0, 0, 3, 0, 0]\<rparr> (2 * 1 + 1) 0 0 = [2, 7] \<and>
   peak_local_max stable_argsort \<lparr>shape = [10], flat = [0, 0, 5, 0, 0, 0, 0, 3, 0, 0]\<rparr> 1 0 0 (Finite 1)
     = Inr \<lparr>shape = [10], flat = [False, False, True, False, False, False, False, False, False, False]\<rparr> \<and>
   int (card (true_cells \<lparr>shape = [10],
        flat = [False, False, True, False, False, False, False, False, False, False]\<rparr>)) = 1"
proof -
  let ?g = "\<lparr>shape = [10], flat = [0, 0, 5, 0, 0, 0, 0, 3, 0, 0::real]\<rparr>"
  let ?r = "\<lparr>shape = [10], flat = [False, False, True, False, False, False, False, False, False, False]\<rparr>"
  have wf: "wf_ndarray ?g" by (simp add: wf_ndarray_def)
  have nc: "\<not> constant_grid ?g" by (simp add: constant_grid_def)
  have np: "\<forall>k. Finite 1 = Finite k \<longrightarrow> 0 \<le> k" by simp
  have sv: "survivors ?g (2 * 1 + 1) 0 0 = [2, 7]" by code_simp
  have res: "peak_local_max stable_argsort ?g 1 0 0 (Finite 1) = Inr ?r" by code_simp
  note T = peak_local_max_top_k[OF wf stable_argsort_sorting np,
      where min_distance = 1 and threshold_abs = 0 and threshold_rel = 0]
  from T res have "\<forall>k. Finite 1 = Finite k \<longrightarrow>
      k < int (length (survivors ?g (2 * 1 + 1) 0 0)) \<longrightarrow> int (card (true_cells ?r)) = k"
    using nc by blast
  then have "int (card (true_cells ?r)) = 1" unfolding sv by simp
  with wf stable_argsort_sorting nc sv res show ?thesis by (intro conjI)
qed

text \<open>
  Claim C7 as stated fails for a negative \<open>num_peaks\<close>.  With two survivors and
  \<open>num_peaks = -1\<close> the count exceeds \<open>num_peaks\<close>, the slice \<^verbatim>\<open>[:-1]\<close> drops the weakest
  survivor only, and one cell stays true: neither exactly \<open>num_peaks\<close> cells nor at most
  \<open>num_peaks\<close>.
\<close>

theorem peak_local_max_negative_num_peaks_counterexample:
  "survivors \<lparr>shape = [10], flat = [0, 0, 5, 0, 0, 0, 0, 3, 0, 0]\<rparr> (2 * 1 + 1) 0 0 = [2, 7] \<and>
   peak_local_max stable_argsort \<lparr>shape = [10], flat = [0, 0, 5, 0, 0, 0, 0, 3, 0, 0]\<rparr> 1 0 0 (Finite (- 1))
     = Inr \<lparr>shape = [10], flat = [False, False, True, False, False, False, False, False, False, False]\<rparr> \<and>
   count_list [False, False, True, False, False, False, False, False, False, False] True = 1"
  by code_simp

section \<open>The window of the maximum filter\<close>

lemma window_offsets_odd: "set (window_offsets (2 * r + 1)) = {- int r .. int r}"
  by (simp add: window_offsets_def)

lemma window_Cons:
  "set (window (2 * r + 1) (c # cs))
     = {(c + off) # w | off w. off \<in> {- int r .. int r} \<and> w \<in> set (window (2 * r + 1) cs)}"
proof -
  have "set (window (2 * r + 1) (c # cs))
      = (\<Union>off\<in>set (window_offsets (2 * r + 1)). (#) (c + off) ` set (window (2 * r + 1) cs))"
    by (simp only: window.simps set_concat set_map image_image)
  also have "\<dots> = {(c + off) # w | off w. off \<in> {- int r .. int r} \<and> w \<in> set (window (2 * r + 1) cs)}"
    by (simp only: window_offsets_odd) blast
  finally show ?thesis .
qed

lemma window_iff:
  "p \<in> set (window (2 * r + 1) cs) \<longleftrightarrow>
     list_all2 (\<lambda>x c. c - int r \<le> x \<and> x \<le> c + int r) p cs"
proof (induction cs arbitrary: p)
  case Nil
  show ?case by simp
next
  case (Cons c cs)
  have "p \<in> set (window (2 * r + 1) (c # cs)) \<longleftrightarrow>
        (\<exists>off\<in>{- int r .. int r}. \<exists>w\<in>set (window (2 * r + 1) cs). p = (c + off) # w)"
    by (simp only: window_Cons) blast
  also have "\<dots> \<longleftrightarrow> (\<exists>x w. p = x # w \<and> c - int r \<le> x \<and> x \<le> c + int r \<and>
                    list_all2 (\<lambda>x c. c - int r \<le> x \<and> x \<le> c + int r) w cs)"
  proof
    assume "\<exists>off\<in>{- int r .. int r}. \<exists>w\<in>set (window (2 * r + 1) cs). p = (c + off) # w"
    then obtain off w where "off \<in> {- int r .. int r}" "w \<in> set (window (2 * r + 1) cs)" "p = (c + off) # w"
      by blast
    with Cons.IH[of w] show "\<exists>x w. p = x # w \<and> c - int r \<le> x \<and> x \<le> c + int r \<and>
                    list_all2 (\<lambda>x c. c - int r \<le> x \<and> x \<le> c + int r) w cs"
      by (intro exI[of _ "c + off"] exI[of _ w]) simp
  next
    assume "\<exists>x w. p = x # w \<and> c - int r \<le> x \<and> x \<le> c + int r \<and>
                    list_all2 (\<lambda>x c. c - int r \<le> x \<and> x \<le> c + int r) w cs"
    then obtain x w where xw: "p = x # w" "c - int r \<le> x" "x \<le> c + int r"
      "list_all2 (\<lambda>x c. c - int r \<le> x \<and> x \<le> c + int r) w cs" by blast
    from xw(2,3) have "x - c \<in> {- int r .. int r}" by simp
    moreover from xw(4) Cons.IH[of w] have "w \<in> set (window (2 * r + 1) cs)" by simp
    moreover from xw(1) have "p = (c + (x - c)) # w" by simp
    ultimately show "\<exists>off\<in>{- int r .. int r}. \<exists>w\<in>set (window (2 * r + 1) cs). p = (c + off) # w"
      by blast
  qed
  also have "\<dots> \<longleftrightarrow> list_all2 (\<lambda>x c. c - int r \<le> x \<and> x \<le> c + int r) p (c # cs)"
    by (auto simp: list_all2_Cons2)
  finally show ?case .
qed

lemma chebyshev_le_iff:
  "length a = length b \<Longrightarrow>
   chebyshev_dist a b \<le> r \<longleftrightarrow>
     list_all2 (\<lambda>y x. int x - int r \<le> int y \<and> int y \<le> int x + int r) b a"
  by (induction a b rule: list_induct2) auto

lemma window_inside_iff:
  "in_bounds a sh \<Longrightarrow>
   (\<forall>p. list_all2 (\<lambda>x c. c - int r \<le> x \<and> x \<le> c + int r) p (map int a) \<longrightarrow>
        list_all2 (\<lambda>c d. 0 \<le> c \<and> c < int d) p sh)
   \<longleftrightarrow> window_inside sh r a"
  unfolding in_bounds_def
proof (induction a sh rule: list_all2_induct)
  case Nil
  show ?case by (simp add: window_inside_def)
next
  case (Cons c cs d ds)
  let ?R = "\<lambda>x c. c - int r \<le> x \<and> x \<le> c + int r"
  let ?B = "\<lambda>c d. 0 \<le> c \<and> c < int d"
  have refl: "list_all2 ?R (map int cs) (map int cs)"
    by (simp add: list_all2_same)
  show ?case
  proof
    assume all: "\<forall>p. list_all2 ?R p (map int (c # cs)) \<longrightarrow> list_all2 ?B p (d # ds)"
    have lo: "list_all2 ?B ((int c - int r) # map int cs) (d # ds)"
      using all refl by (intro all[rule_format]) simp
    have hi: "list_all2 ?B ((int c + int r) # map int cs) (d # ds)"
      using all refl by (intro all[rule_format]) simp
    have "\<forall>w. list_all2 ?R w (map int cs) \<longrightarrow> list_all2 ?B w ds"
    proof (intro allI impI)
      fix w assume "list_all2 ?R w (map int cs)"
      then have "list_all2 ?R (int c # w) (map int (c # cs))" by simp
      with all have "list_all2 ?B (int c # w) (d # ds)" by blast
      then show "list_all2 ?B w ds" by simp
    qed
    with Cons.IH have "window_inside ds r cs" by simp
    with lo hi show "window_inside (d # ds) r (c # cs)" by (simp add: window_inside_def)
  next
    assume ins: "window_inside (d # ds) r (c # cs)"
    then have c: "r \<le> c" "c + r < d" and rest: "window_inside ds r cs"
      by (simp_all add: window_inside_def)
    from rest Cons.IH have IH: "\<And>w. list_all2 ?R w (map int cs) \<Longrightarrow> list_all2 ?B w ds" by simp
    show "\<forall>p. list_all2 ?R p (map int (c # cs)) \<longrightarrow> list_all2 ?B p (d # ds)"
    proof (intro allI impI)
      fix p assume "list_all2 ?R p (map int (c # cs))"
      then obtain x w where p: "p = x # w" "int c - int r \<le> x" "x \<le> int c + int r"
        "list_all2 ?R w (map int cs)" by (auto simp: list_all2_Cons2)
      from p(2,3) c have "0 \<le> x" "x < int d" by simp_all
      with IH[OF p(4)] p(1) show "list_all2 ?B p (d # ds)" by simp
    qed
  qed
qed

lemma inb_nat:
  assumes "list_all2 (\<lambda>c d. 0 \<le> c \<and> c < int d) p sh"
  shows "in_bounds (map nat p) sh" and "map int (map nat p) = p"
  using assms unfolding in_bounds_def by (induction p sh rule: list_all2_induct) auto

lemma inb_int: "in_bounds u sh \<Longrightarrow> list_all2 (\<lambda>c d. 0 \<le> c \<and> c < int d) (map int u) sh"
  unfolding in_bounds_def by (induction u sh rule: list_all2_induct) simp_all

lemma window_set:
  assumes wf: "wf_ndarray img" and i: "i < length (flat img)"
  shows "set (map (padded img) (window (2 * r + 1) (map int (unravel_index i (shape img)))))
         = window_values img r i"
proof -
  let ?sh = "shape img" and ?a = "unravel_index i (shape img)"
  let ?W = "set (window (2 * r + 1) (map int ?a))"
  let ?R = "\<lambda>x c. c - int r \<le> x \<and> x \<le> c + int r"
  let ?B = "\<lambda>c d. 0 \<le> c \<and> c < int d"
  have n: "length (flat img) = prod_list ?sh" using wf by (simp add: wf_ndarray_def)
  from i n have a: "in_bounds ?a ?sh" by (simp add: unravel_in_bounds)
  have W: "p \<in> ?W \<longleftrightarrow> list_all2 ?R p (map int ?a)" for p by (rule window_iff)
  have inside: "(\<forall>p\<in>?W. list_all2 ?B p ?sh) \<longleftrightarrow> window_inside ?sh r ?a"
    unfolding Ball_def W by (rule window_inside_iff[OF a])
  have cheb: "chebyshev_dist ?a u \<le> r \<longleftrightarrow> map int u \<in> ?W" if "in_bounds u ?sh" for u
  proof -
    from that a have "length ?a = length u" by (simp add: in_bounds_length)
    from chebyshev_le_iff[OF this, of r] show ?thesis
      unfolding W by (simp only: list_all2_map1 list_all2_map2)
  qed
  show ?thesis
  proof (intro set_eqI iffI)
    fix x assume "x \<in> set (map (padded img) (window (2 * r + 1) (map int ?a)))"
    then obtain p where p: "p \<in> ?W" "x = padded img p" by auto
    show "x \<in> window_values img r i"
    proof (cases "list_all2 ?B p ?sh")
      case True
      note N = inb_nat[OF True]
      let ?j = "ravel_multi_index (map nat p) ?sh"
      from ravel_less[OF N(1)] n have j: "?j < length (flat img)" by simp
      from unravel_ravel[OF N(1)] have u: "unravel_index ?j ?sh = map nat p" .
      from cheb[OF N(1)] N(2) p(1) have "chebyshev_dist ?a (map nat p) \<le> r" by simp
      with u have "chebyshev_dist ?a (unravel_index ?j ?sh) \<le> r" by simp
      moreover from True p(2) have "x = flat img ! ?j" by (simp add: padded_def)
      ultimately show ?thesis using j unfolding window_values_def by blast
    next
      case False
      with p(1) inside have "\<not> window_inside ?sh r ?a" by blast
      moreover from False p(2) have "x = 0" by (simp add: padded_def)
      ultimately show ?thesis by (simp add: window_values_def)
    qed
  next
    fix x assume "x \<in> window_values img r i"
    then consider j where "j < length (flat img)" "x = flat img ! j"
        "chebyshev_dist ?a (unravel_index j ?sh) \<le> r"
      | "x = 0" "\<not> window_inside ?sh r ?a"
      unfolding window_values_def by (auto split: if_splits)
    then show "x \<in> set (map (padded img) (window (2 * r + 1) (map int ?a)))"
    proof cases
      case 1
      let ?u = "unravel_index j ?sh"
      from 1(1) n have jn: "j < prod_list ?sh" by simp
      from unravel_in_bounds[OF jn] have u: "in_bounds ?u ?sh" .
      from cheb[OF u] 1(3) have w: "map int ?u \<in> ?W" by simp
      have "padded img (map int ?u) = flat img ! ravel_multi_index (map nat (map int ?u)) ?sh"
        using inb_int[OF u] by (simp add: padded_def)
      also have "map nat (map int ?u) = ?u" by (simp add: comp_def)
      also have "ravel_multi_index ?u ?sh = j" by (rule ravel_unravel[OF jn])
      finally have "padded img (map int ?u) = x" using 1(2) by simp
      with w show ?thesis by (simp only: set_map) (rule image_eqI[of _ _ "map int ?u"], simp_all)
    next
      case 2
      with inside obtain p where p: "p \<in> ?W" "\<not> list_all2 ?B p ?sh" by blast
      then have "padded img p = 0" by (simp add: padded_def)
      with p(1) 2(1) show ?thesis by (simp only: set_map) (rule image_eqI[of _ _ p], simp_all)
    qed
  qed
qed

lemma window_maximum_nth:
  assumes wf: "wf_ndarray img" and i: "i < length (flat img)"
  shows "flat (window_maximum img (2 * r + 1)) ! i = Max (window_values img r i)"
  using i window_set[OF wf i, of r] by (simp add: window_maximum_def del: set_map)

text \<open>
  A window of size one is the cell itself, so the filter that SciPy leaves out for that
  size would have returned the input as well.
\<close>

lemma window_one: "window (Suc 0) cs = [cs]"
  by (induction cs) (simp_all add: window_offsets_def)

lemma window_maximum_one:
  assumes wf: "wf_ndarray a"
  shows "window_maximum a (Suc 0) = a"
proof -
  have n: "length (flat a) = prod_list (shape a)" using wf by (simp add: wf_ndarray_def)
  have "map (\<lambda>i. Max (set (map (padded a) (window (Suc 0) (map int (unravel_index i (shape a)))))))
          [0..<length (flat a)] = map (\<lambda>i. flat a ! i) [0..<length (flat a)]"
  proof (rule map_cong[OF refl])
    fix i assume "i \<in> set [0..<length (flat a)]"
    with n have i: "i < prod_list (shape a)" by simp
    from unravel_in_bounds[OF i] have u: "in_bounds (unravel_index i (shape a)) (shape a)" .
    have "padded a (map int (unravel_index i (shape a)))
            = flat a ! ravel_multi_index (map nat (map int (unravel_index i (shape a)))) (shape a)"
      using inb_int[OF u] by (simp add: padded_def)
    also have "map nat (map int (unravel_index i (shape a))) = unravel_index i (shape a)"
      by (simp add: comp_def)
    also have "ravel_multi_index (unravel_index i (shape a)) (shape a) = i" by (rule ravel_unravel[OF i])
    finally show "Max (set (map (padded a) (window (Suc 0) (map int (unravel_index i (shape a)))))) = flat a ! i"
      by (simp add: window_one)
  qed
  then have "flat (window_maximum a (Suc 0)) = flat a"
    by (simp add: window_maximum_def map_nth)
  moreover have "shape (window_maximum a (Suc 0)) = shape a" by (simp add: window_maximum_def)
  ultimately show ?thesis by simp
qed

lemma maximum_filter_odd:
  assumes wf: "wf_ndarray img"
  shows "maximum_filter img (2 * int r + 1) = window_maximum img (2 * r + 1)"
proof (cases "r = 0")
  case True
  then show ?thesis by (simp add: maximum_filter_def window_maximum_one[OF wf])
next
  case False
  then have "\<not> 2 * int r + 1 \<le> 1" by simp
  moreover have "nat (2 * int r + 1) = 2 * r + 1" by simp
  ultimately show ?thesis by (simp only: maximum_filter_def if_False)
qed

lemma maximum_filter_nth:
  assumes wf: "wf_ndarray img" and i: "i < length (flat img)"
  shows "flat (maximum_filter img (2 * int r + 1)) ! i = Max (window_values img r i)"
  unfolding maximum_filter_odd[OF wf] by (rule window_maximum_nth[OF wf i])

lemma masked_image_nth:
  assumes wf: "wf_ndarray img" and i: "i < length (flat img)"
  shows "flat (masked_image img (2 * int r + 1)) ! i
         = (if flat img ! i = Max (window_values img r i) then flat img ! i else 0)"
proof -
  have len: "length (flat (maximum_filter img (2 * int r + 1))) = length (flat img)"
    by (rule maximum_filter_length)
  from i len maximum_filter_nth[OF wf i, of r] show ?thesis
    by (simp add: masked_image_def Let_def)
qed


lemma window_offsets_length: "length (window_offsets sz) = sz"
  by (simp add: window_offsets_def)

text \<open>
  Claim C5.  For a non-negative \<open>min_distance\<close> the filter window has
  \<open>2 * min_distance + 1\<close> offsets per axis, from \<open>- min_distance\<close> to \<open>min_distance\<close>.  The
  filtered value of a cell is the maximum of \<open>window_values\<close>: the cells within distance
  \<open>min_distance\<close> in every axis, and 0 when the window reaches outside the grid.  In the
  masked grid a cell keeps its value exactly when it equals that maximum and holds 0
  otherwise.
\<close>

theorem masked_image_candidates:
  assumes wf: "wf_ndarray img" and i: "i < length (flat img)" and md: "0 \<le> min_distance"
  shows "flat (masked_image img (2 * min_distance + 1)) ! i
           = (if flat img ! i = Max (window_values img (nat min_distance) i)
              then flat img ! i else 0) \<and>
         flat (maximum_filter img (2 * min_distance + 1)) ! i
           = Max (window_values img (nat min_distance) i) \<and>
         int (length (window_offsets (nat (2 * min_distance + 1)))) = 2 * min_distance + 1 \<and>
         set (window_offsets (nat (2 * min_distance + 1))) = {- min_distance .. min_distance}"
proof -
  from md have sz: "nat (2 * min_distance + 1) = 2 * nat min_distance + 1" by simp
  from md have szi: "2 * min_distance + 1 = 2 * int (nat min_distance) + 1" by simp
  have a: "set (window_offsets (nat (2 * min_distance + 1))) = {- min_distance .. min_distance}"
    unfolding sz using window_offsets_odd[of "nat min_distance"] md by simp
  have b: "int (length (window_offsets (nat (2 * min_distance + 1)))) = 2 * min_distance + 1"
    using md by (simp add: window_offsets_length)
  have c: "flat (masked_image img (2 * min_distance + 1)) ! i
           = (if flat img ! i = Max (window_values img (nat min_distance) i)
              then flat img ! i else 0)"
    by (subst szi) (rule masked_image_nth[OF wf i])
  have d: "flat (maximum_filter img (2 * min_distance + 1)) ! i
           = Max (window_values img (nat min_distance) i)"
    by (subst szi) (rule maximum_filter_nth[OF wf i])
  from c d b a show ?thesis by (intro conjI)
qed

theorem masked_image_candidates_witness:
  "wf_ndarray \<lparr>shape = [5], flat = [0, 5, 0, 3, 0::real]\<rparr> \<and>
   (1::nat) < length (flat \<lparr>shape = [5], flat = [0, 5, 0, 3, 0::real]\<rparr>) \<and>
   (0::int) \<le> 1 \<and>
   flat (masked_image \<lparr>shape = [5], flat = [- 1, 5, 4, 3, - 2]\<rparr> (2 * 1 + 1)) = [0, 5, 0, 0, 0] \<and>
   flat (masked_image \<lparr>shape = [5], flat = [0, 5, 0, 3, 0]\<rparr> (2 * 1 + 1)) ! 1
     = (if flat \<lparr>shape = [5], flat = [0, 5, 0, 3, 0::real]\<rparr> ! 1
            = Max (window_values \<lparr>shape = [5], flat = [0, 5, 0, 3, 0]\<rparr> (nat 1) 1)
        then flat \<lparr>shape = [5], flat = [0, 5, 0, 3, 0::real]\<rparr> ! 1 else 0)"
proof -
  let ?g = "\<lparr>shape = [5], flat = [0, 5, 0, 3, 0::real]\<rparr>"
  have wf: "wf_ndarray ?g" by (simp add: wf_ndarray_def)
  have i: "(1::nat) < length (flat ?g)" by simp
  have md: "(0::int) \<le> 1" by simp
  have ex: "flat (masked_image \<lparr>shape = [5], flat = [- 1, 5, 4, 3, - 2]\<rparr> (2 * 1 + 1)) = [0, 5, 0, 0, 0]"
    by code_simp
  show ?thesis
    by (intro conjI wf i md ex conjunct1[OF masked_image_candidates[OF wf i md]])
qed



section \<open>Running the operations on their own output\<close>















lemma zeros_like_map: "\<lparr>shape = sh, flat = map (\<lambda>i. False) [0..<n]\<rparr> = \<lparr>shape = sh, flat = replicate n False\<rparr>"
  by (simp add: map_replicate_const)









section \<open>Neither operation writes into its input\<close>

lemma preserved_nth:
  assumes "preserved s s'"
  shows "p < length (reals s) \<Longrightarrow> reals s' ! p = reals s ! p"
    and "p < length (ints s) \<Longrightarrow> ints s' ! p = ints s ! p"
proof -
  from assms have r: "take (length (reals s)) (reals s') = reals s"
    and i: "take (length (ints s)) (ints s') = ints s"
    by (simp_all add: preserved_def)
  show "reals s' ! p = reals s ! p" if "p < length (reals s)"
    using nth_take[OF that, of "reals s'"] r by simp
  show "ints s' ! p = ints s ! p" if "p < length (ints s)"
    using nth_take[OF that, of "ints s'"] i by simp
qed

lemma peak_local_max_st_refines:
  assumes "img < length (reals s)"
  shows "preserved s (snd (peak_local_max_st srt s img md ta tr np))"
    and "result_is (peak_local_max_st srt s img md ta tr np) (peak_local_max srt (reals s ! img) md ta tr np)"
proof -
  let ?a = "reals s ! img"
  note defs = peak_local_max_st_def new_bool_def new_real_def Let_def nth_append
  have "preserved s (snd (peak_local_max_st srt s img md ta tr np)) \<and>
        result_is (peak_local_max_st srt s img md ta tr np) (peak_local_max srt ?a md ta tr np)"
  proof (cases "flat ?a")
    case Nil
    with assms show ?thesis
      by (simp add: defs preserved_def result_is_def peak_local_max_def)
  next
    case (Cons x0 xs)
    show ?thesis
    proof (cases "list_all (\<lambda>x. x = x0) (flat ?a)")
      case True
      with Cons assms show ?thesis
        by (simp add: defs preserved_def result_is_def peak_local_max_def)
    next
      case nonconst: False
      with Cons assms show ?thesis
        by (cases np)
           (simp_all add: defs preserved_def result_is_def peak_local_max_def masked_image_def)
    qed
  qed
  then show "preserved s (snd (peak_local_max_st srt s img md ta tr np))"
    and "result_is (peak_local_max_st srt s img md ta tr np) (peak_local_max srt ?a md ta tr np)"
    by simp_all
qed

lemma largest_connected_component_st_refines:
  assumes "volume < length (ints s)"
  shows "preserved s (snd (largest_connected_component_st s (ArrayRef volume)))"
    and "result_is (largest_connected_component_st s (ArrayRef volume))
           (largest_connected_component (Array (ints s ! volume)))"
proof -
  obtain L K where lab: "label (ints s ! volume) = (L, K)" by (cases "label (ints s ! volume)")
  note defs = new_bool_def new_nat_def Let_def nth_append
  have "preserved s (snd (largest_connected_component_st s (ArrayRef volume))) \<and>
        result_is (largest_connected_component_st s (ArrayRef volume))
           (largest_connected_component (Array (ints s ! volume)))"
  proof (cases "K = 0")
    case True
    with lab assms show ?thesis by (simp add: defs preserved_def result_is_def)
  next
    case False
    show ?thesis
    proof (cases "K = 1")
      case True
      with lab assms show ?thesis by (simp add: defs preserved_def result_is_def)
    next
      case many: False
      with False lab assms show ?thesis
        by (simp add: defs preserved_def result_is_def select_largest_def)
    qed
  qed
  then show "preserved s (snd (largest_connected_component_st s (ArrayRef volume)))"
    and "result_is (largest_connected_component_st s (ArrayRef volume))
           (largest_connected_component (Array (ints s ! volume)))"
    by simp_all
qed

text \<open>
  Claim C9.  Run on a store, neither \<open>peak_local_max\<close> nor
  \<open>largest_connected_component\<close> changes an array that was in the store before the call:
  the input array holds afterwards what it held before, also when the call raises.  The
  in-place multiplication of line 148 falls on the copy made in line 142.  The value at the
  returned reference is the value of the pure function.  This holds for every sort.
\<close>

theorem input_not_mutated:
  "(img < length (reals s) \<longrightarrow>
      reals (snd (peak_local_max_st argsort s img min_distance threshold_abs threshold_rel num_peaks)) ! img
        = reals s ! img \<and>
      preserved s (snd (peak_local_max_st argsort s img min_distance threshold_abs threshold_rel num_peaks)) \<and>
      result_is (peak_local_max_st argsort s img min_distance threshold_abs threshold_rel num_peaks)
        (peak_local_max argsort (reals s ! img) min_distance threshold_abs threshold_rel num_peaks)) \<and>
   (volume < length (ints s) \<longrightarrow>
      ints (snd (largest_connected_component_st s (ArrayRef volume))) ! volume = ints s ! volume \<and>
      preserved s (snd (largest_connected_component_st s (ArrayRef volume))) \<and>
      result_is (largest_connected_component_st s (ArrayRef volume))
        (largest_connected_component (Array (ints s ! volume))))"
proof (intro conjI impI)
  assume a: "img < length (reals s)"
  note P = peak_local_max_st_refines[OF a, where srt = argsort and md = min_distance and ta = threshold_abs
      and tr = threshold_rel and np = num_peaks]
  from preserved_nth(1)[OF P(1) a]
  show "reals (snd (peak_local_max_st argsort s img min_distance threshold_abs threshold_rel num_peaks)) ! img
        = reals s ! img" .
  from P show "preserved s (snd (peak_local_max_st argsort s img min_distance threshold_abs threshold_rel num_peaks))"
    and "result_is (peak_local_max_st argsort s img min_distance threshold_abs threshold_rel num_peaks)
        (peak_local_max argsort (reals s ! img) min_distance threshold_abs threshold_rel num_peaks)"
    by simp_all
next
  assume a: "volume < length (ints s)"
  note P = largest_connected_component_st_refines[OF a]
  from preserved_nth(2)[OF P(1) a]
  show "ints (snd (largest_connected_component_st s (ArrayRef volume))) ! volume = ints s ! volume" .
  from P show "preserved s (snd (largest_connected_component_st s (ArrayRef volume)))"
    and "result_is (largest_connected_component_st s (ArrayRef volume))
        (largest_connected_component (Array (ints s ! volume)))"
    by simp_all
qed

theorem input_not_mutated_witness:
  "(0::nat) < length (reals \<lparr>ints = [\<lparr>shape = [3], flat = [1, 0, 1]\<rparr>],
                              reals = [\<lparr>shape = [3], flat = [1, 5, 2]\<rparr>],
                              bools = [], nats = []\<rparr>) \<and>
   reals (snd (peak_local_max_st stable_argsort
                 \<lparr>ints = [\<lparr>shape = [3], flat = [1, 0, 1]\<rparr>],
                  reals = [\<lparr>shape = [3], flat = [1, 5, 2]\<rparr>],
                  bools = [], nats = []\<rparr> 0 1 0 (1 / 10) Infinite)) ! 0
     = \<lparr>shape = [3], flat = [1, 5, 2]\<rparr> \<and>
   reals (snd (peak_local_max_st stable_argsort
                 \<lparr>ints = [\<lparr>shape = [3], flat = [1, 0, 1]\<rparr>],
                  reals = [\<lparr>shape = [3], flat = [1, 5, 2]\<rparr>],
                  bools = [], nats = []\<rparr> 0 1 0 (1 / 10) Infinite)) ! 1
     = \<lparr>shape = [3], flat = [0, 5, 0]\<rparr> \<and>
   (0::nat) < length (ints \<lparr>ints = [\<lparr>shape = [3], flat = [1, 0, 1]\<rparr>],
                             reals = [\<lparr>shape = [3], flat = [1, 5, 2]\<rparr>],
                             bools = [], nats = []\<rparr>) \<and>
   ints (snd (largest_connected_component_st
                \<lparr>ints = [\<lparr>shape = [3], flat = [1, 0, 1]\<rparr>],
                 reals = [\<lparr>shape = [3], flat = [1, 5, 2]\<rparr>],
                 bools = [], nats = []\<rparr> (ArrayRef 0))) ! 0
     = \<lparr>shape = [3], flat = [1, 0, 1]\<rparr>"
proof -
  let ?s = "\<lparr>ints = [\<lparr>shape = [3], flat = [1, 0, 1]\<rparr>],
             reals = [\<lparr>shape = [3], flat = [1, 5, 2]\<rparr>],
             bools = [], nats = []\<rparr>"
  have a: "(0::nat) < length (reals ?s)" by simp
  have b: "(0::nat) < length (ints ?s)" by simp
  note T = input_not_mutated[where s = ?s and argsort = stable_argsort and img = 0 and volume = 0 and min_distance = 1
      and threshold_abs = 0 and threshold_rel = "1 / 10" and num_peaks = Infinite]
  from conjunct1[OF T] a
  have 1: "reals (snd (peak_local_max_st stable_argsort ?s 0 1 0 (1 / 10) Infinite)) ! 0 = reals ?s ! 0" by blast
  have 2: "reals (snd (peak_local_max_st stable_argsort ?s 0 1 0 (1 / 10) Infinite)) ! 1
             = \<lparr>shape = [3], flat = [0, 5, 0]\<rparr>"
    by code_simp
  from conjunct2[OF T] b
  have 3: "ints (snd (largest_connected_component_st ?s (ArrayRef 0))) ! 0 = ints ?s ! 0" by blast
  from 1 have p1: "reals (snd (peak_local_max_st stable_argsort ?s 0 1 0 (1 / 10) Infinite)) ! 0
             = \<lparr>shape = [3], flat = [1, 5, 2]\<rparr>" by simp
  from 3 have p3: "ints (snd (largest_connected_component_st ?s (ArrayRef 0))) ! 0
             = \<lparr>shape = [3], flat = [1, 0, 1]\<rparr>"
    by (simp del: largest_connected_component_st.simps)
  show ?thesis by (intro conjI a p1 2 b p3)
qed

end
